theory Spec2Isabelle
  imports Complex_Main "HOL-Library.Word"
begin

unbundle bit_operations_syntax

section \<open>JavaScript numbers\<close>

text \<open>
  A JavaScript number is modelled as an exact real, or one of the three special values of
  IEEE-754 that the program can meet: \<open>NaN\<close> (the number that \<open>undefined\<close> converts to, and
  the result of a failed \<open>parseFloat\<close>) and the two infinities. Finite values are exact:
  the rounding of binary floating point and overflow to infinity are not modelled, and
  neither is the sign of zero (no operation of the program observes it).
\<close>

datatype jsnum = NaN | PInf | NInf | Fin real

text \<open>The infinity with the sign of \<open>s\<close>; \<open>NaN\<close> for \<open>s = 0\<close> (as in \<open>Infinity * 0\<close>).\<close>

definition inf_signed :: "real \<Rightarrow> jsnum" where
  "inf_signed s = (if s = 0 then NaN else if 0 < s then PInf else NInf)"

fun jsmul :: "jsnum \<Rightarrow> jsnum \<Rightarrow> jsnum" where
  "jsmul NaN y = NaN"
| "jsmul x NaN = NaN"
| "jsmul (Fin x) (Fin y) = Fin (x * y)"
| "jsmul (Fin x) PInf = inf_signed x"
| "jsmul (Fin x) NInf = inf_signed (- x)"
| "jsmul PInf (Fin y) = inf_signed y"
| "jsmul NInf (Fin y) = inf_signed (- y)"
| "jsmul PInf PInf = PInf"
| "jsmul PInf NInf = NInf"
| "jsmul NInf PInf = NInf"
| "jsmul NInf NInf = PInf"

fun jsadd :: "jsnum \<Rightarrow> jsnum \<Rightarrow> jsnum" where
  "jsadd NaN y = NaN"
| "jsadd x NaN = NaN"
| "jsadd (Fin x) (Fin y) = Fin (x + y)"
| "jsadd PInf NInf = NaN"
| "jsadd NInf PInf = NaN"
| "jsadd PInf y = PInf"
| "jsadd NInf y = NInf"
| "jsadd x PInf = PInf"
| "jsadd x NInf = NInf"

fun jsneg :: "jsnum \<Rightarrow> jsnum" where
  "jsneg NaN = NaN"
| "jsneg PInf = NInf"
| "jsneg NInf = PInf"
| "jsneg (Fin x) = Fin (- x)"

definition jssub :: "jsnum \<Rightarrow> jsnum \<Rightarrow> jsnum" where
  "jssub x y = jsadd x (jsneg y)"

text \<open>Division; a zero divisor is taken as \<open>+0\<close>.\<close>

fun jsdiv :: "jsnum \<Rightarrow> jsnum \<Rightarrow> jsnum" where
  "jsdiv NaN y = NaN"
| "jsdiv x NaN = NaN"
| "jsdiv (Fin x) (Fin y) = (if y = 0 then inf_signed x else Fin (x / y))"
| "jsdiv (Fin x) PInf = Fin 0"
| "jsdiv (Fin x) NInf = Fin 0"
| "jsdiv PInf (Fin y) = (if y < 0 then NInf else PInf)"
| "jsdiv NInf (Fin y) = (if y < 0 then PInf else NInf)"
| "jsdiv x y = NaN"

text \<open>\<open>x < y\<close>: false whenever an operand is \<open>NaN\<close>.\<close>

fun jslt :: "jsnum \<Rightarrow> jsnum \<Rightarrow> bool" where
  "jslt NaN y = False"
| "jslt x NaN = False"
| "jslt (Fin x) (Fin y) = (x < y)"
| "jslt x NInf = False"
| "jslt PInf y = False"
| "jslt NInf y = True"
| "jslt x PInf = True"

definition jsgt :: "jsnum \<Rightarrow> jsnum \<Rightarrow> bool" where
  "jsgt x y = jslt y x"

fun isNaN :: "jsnum \<Rightarrow> bool" where
  "isNaN NaN = True"
| "isNaN x = False"

text \<open>\<open>Math.abs\<close>, \<open>Math.max\<close> and \<open>Math.min\<close>: \<open>NaN\<close> if an argument is \<open>NaN\<close>.\<close>

fun Math_abs :: "jsnum \<Rightarrow> jsnum" where
  "Math_abs NaN = NaN"
| "Math_abs PInf = PInf"
| "Math_abs NInf = PInf"
| "Math_abs (Fin x) = Fin \<bar>x\<bar>"

definition Math_max :: "jsnum \<Rightarrow> jsnum \<Rightarrow> jsnum" where
  "Math_max x y = (if isNaN x \<or> isNaN y then NaN else if jslt x y then y else x)"

definition Math_min :: "jsnum \<Rightarrow> jsnum \<Rightarrow> jsnum" where
  "Math_min x y = (if isNaN x \<or> isNaN y then NaN else if jslt y x then y else x)"

section \<open>Loops\<close>

text \<open>
  Every loop of the program has the shape \<^verbatim>\<open>for (let i = 0; i < n; i++) body\<close>.
  \<open>for_loop i n body s\<close> runs it from counter \<open>i\<close> on the state \<open>s\<close> of the variables
  the body assigns.
\<close>

function for_loop :: "int \<Rightarrow> int \<Rightarrow> (int \<Rightarrow> 's \<Rightarrow> 's) \<Rightarrow> 's \<Rightarrow> 's" where
  "for_loop i n body s = (if i < n then for_loop (i + 1) n body (body i s) else s)"
  by pat_completeness auto
termination
  by (relation "measure (\<lambda>(i, n, body, s). nat (n - i))") auto

declare for_loop.simps [simp del]

section \<open>Typed arrays and the store\<close>

text \<open>
  A \<open>Float32Array\<close> is a list of numbers of fixed length, indexed by a JavaScript
  number. Reading outside \<open>0 \<le> i < length\<close> yields \<open>undefined\<close>, which becomes \<open>NaN\<close>
  wherever this program uses it (as an operand of \<open>*\<close>, or stored into another
  \<open>Float32Array\<close>); writing outside the range is ignored: a typed array never grows.
\<close>

definition ta_get :: "jsnum list \<Rightarrow> int \<Rightarrow> jsnum" where
  "ta_get xs i = (if 0 \<le> i \<and> i < int (length xs) then xs ! nat i else NaN)"

definition ta_set :: "'a list \<Rightarrow> int \<Rightarrow> 'a \<Rightarrow> 'a list" where
  "ta_set xs i v = (if 0 \<le> i \<and> i < int (length xs) then xs[nat i := v] else xs)"

text \<open>
  The sample arrays of all audio buffers live in one store, a list of arrays; the address
  of an array is its position. Two buffers alias when they hold the same address.
  Allocation appends to the store, so a new array has an address no older array has.
\<close>

type_synonym addr = nat
type_synonym heap = "jsnum list list"

definition arr_get :: "heap \<Rightarrow> addr \<Rightarrow> int \<Rightarrow> jsnum" where
  "arr_get h a i = (if a < length h then ta_get (h ! a) i else NaN)"

definition arr_set :: "heap \<Rightarrow> addr \<Rightarrow> int \<Rightarrow> jsnum \<Rightarrow> heap" where
  "arr_set h a i v = (if a < length h then h[a := ta_set (h ! a) i v] else h)"

section \<open>The platform's AudioBuffer\<close>

text \<open>
  An \<open>AudioBuffer\<close> of the Web Audio API: its sample rate, its length in sample frames,
  and one \<open>Float32Array\<close> per channel, which \<open>getChannelData\<close> returns by reference.
  \<open>numberOfChannels\<close> is the number of these arrays. The sample rate is a whole number
  of samples per second. The program calls \<open>getChannelData\<close> only inside a loop over the
  channels, with a channel below \<open>numberOfChannels\<close>.
\<close>

record AudioBuffer =
  sampleRate :: nat
  length_buf :: nat
  channelData :: "addr list"

definition numberOfChannels :: "AudioBuffer \<Rightarrow> nat" where
  "numberOfChannels buffer = length (channelData buffer)"

definition getChannelData :: "AudioBuffer \<Rightarrow> int \<Rightarrow> addr" where
  "getChannelData buffer channel = channelData buffer ! nat channel"

text \<open>
  \<open>buffer.duration\<close>, in seconds, as the exact quotient; \<open>duration_double\<close> below is the
  double the platform holds.
\<close>

definition duration :: "AudioBuffer \<Rightarrow> real" where
  "duration buffer = real (length_buf buffer) / real (sampleRate buffer)"

datatype error = NotSupportedError

text \<open>
  \<open>audioContext.createBuffer(numberOfChannels, length, sampleRate)\<close>, as the Web Audio
  API specifies it: a \<open>NotSupportedError\<close> when an argument is zero or negative, otherwise
  a buffer of newly allocated arrays filled with zeros. The upper limits a browser puts on
  the three arguments are not modelled.
\<close>

definition createBuffer :: "heap \<Rightarrow> int \<Rightarrow> int \<Rightarrow> int \<Rightarrow> error + heap \<times> AudioBuffer" where
  "createBuffer h numChannels len rate =
     (if numChannels \<le> 0 \<or> len \<le> 0 \<or> rate \<le> 0 then Inl NotSupportedError
      else Inr (h @ replicate (nat numChannels) (replicate (nat len) (Fin 0)),
                \<lparr>sampleRate = nat rate, length_buf = nat len,
                 channelData = [length h ..< length h + nat numChannels]\<rparr>))"

text \<open>
  The invariant of a buffer in a store: at least one channel and a positive sample rate,
  the channels are different arrays of the store, and each has \<open>length_buf\<close> samples.
\<close>

definition valid_buffer :: "heap \<Rightarrow> AudioBuffer \<Rightarrow> bool" where
  "valid_buffer h buffer \<longleftrightarrow>
     0 < sampleRate buffer \<and> 0 < numberOfChannels buffer \<and>
     distinct (channelData buffer) \<and>
     list_all (\<lambda>a. a < length h \<and> length (h ! a) = length_buf buffer) (channelData buffer)"

section \<open>AudioProcessor.trimAudio\<close>

text \<open>
  The times are finite numbers (both callers compare them with \<open>0\<close> and with the
  buffer's duration before the call). The function is \<open>async\<close>: an exception thrown by
  \<open>createBuffer\<close> rejects the promise it returns, here the \<open>Inl\<close> result. The local
  \<open>duration\<close> of the source is never read and is left out. The function itself compares
  nothing: whatever the two indices are, it asks for a buffer of their difference and
  copies. The two products are exact here; \<open>trimAudio_double\<close> below rounds them to
  doubles, which can move an index by one frame.
\<close>

definition trimAudio :: "heap \<Rightarrow> AudioBuffer \<Rightarrow> real \<Rightarrow> real \<Rightarrow> error + heap \<times> AudioBuffer" where
  "trimAudio h buffer startTime endTime =
     (let rate = sampleRate buffer;
          startSample = \<lfloor>startTime * real rate\<rfloor>;
          endSample = \<lfloor>endTime * real rate\<rfloor>;
          frameCount = endSample - startSample
      in case createBuffer h (int (numberOfChannels buffer)) frameCount (int rate) of
           Inl e \<Rightarrow> Inl e
         | Inr (h1, newBuffer) \<Rightarrow>
             Inr (for_loop 0 (int (numberOfChannels buffer))
                    (\<lambda>channel h.
                       let channelData = getChannelData buffer channel;
                           newChannelData = getChannelData newBuffer channel
                       in for_loop 0 frameCount
                            (\<lambda>i h. arr_set h newChannelData i
                                     (arr_get h channelData (startSample + i))) h)
                    h1,
                  newBuffer))"




section \<open>AudioProcessor.bufferToWav\<close>

type_synonym byte = "8 word"

text \<open>A JavaScript string is its sequence of UTF-16 code units.\<close>

type_synonym jsstring = "nat list"

definition js :: "string \<Rightarrow> jsstring" where
  "js s = map of_char s"

text \<open>
  \<open>string.charCodeAt(i)\<close>, as its only use needs it: the argument of \<open>setUint8\<close>. Outside
  the string it is \<open>NaN\<close>, which \<open>setUint8\<close> stores as 0.
\<close>

definition charCodeAt :: "jsstring \<Rightarrow> int \<Rightarrow> nat" where
  "charCodeAt s i = (if 0 \<le> i \<and> i < int (length s) then s ! nat i else 0)"

text \<open>
  The \<open>DataView\<close> over the 44 bytes of the header. Each setter converts its value to the
  unsigned integer of its width (modulo \<open>2^8\<close>, \<open>2^16\<close>, \<open>2^32\<close>) and stores it with the
  low byte first, every call here passing \<open>littleEndian = true\<close>. All offsets of the
  program are constants inside the 44 bytes.
\<close>

definition setUint8 :: "byte list \<Rightarrow> nat \<Rightarrow> nat \<Rightarrow> byte list" where
  "setUint8 view off v = view[off := word_of_nat v]"

definition setUint16 :: "byte list \<Rightarrow> nat \<Rightarrow> nat \<Rightarrow> byte list" where
  "setUint16 view off v =
     (let w = (word_of_nat v :: 16 word)
      in view[off := ucast w, off + 1 := ucast (drop_bit 8 w)])"

definition setUint32 :: "byte list \<Rightarrow> nat \<Rightarrow> nat \<Rightarrow> byte list" where
  "setUint32 view off v =
     (let w = (word_of_nat v :: 32 word)
      in view[off := ucast w, off + 1 := ucast (drop_bit 8 w),
              off + 2 := ucast (drop_bit 16 w), off + 3 := ucast (drop_bit 24 w)])"

definition writeString :: "byte list \<Rightarrow> nat \<Rightarrow> jsstring \<Rightarrow> byte list" where
  "writeString view offset string =
     for_loop 0 (int (length string))
       (\<lambda>i view. setUint8 view (offset + nat i) (charCodeAt string i)) view"

text \<open>
  The three sizes are divided by 8 after a multiplication by \<open>bitsPerSample = 16\<close>, so the
  division is exact.
\<close>

definition createWavHeader :: "nat \<Rightarrow> nat \<Rightarrow> nat \<Rightarrow> byte list" where
  "createWavHeader numChannels rate len =
     (let bitsPerSample = 16;
          byteRate = rate * numChannels * bitsPerSample div 8;
          blockAlign = numChannels * bitsPerSample div 8;
          dataSize = len * numChannels * bitsPerSample div 8;
          view = replicate 44 0;
          view = writeString view 0 (js ''RIFF'');
          view = setUint32 view 4 (36 + dataSize);
          view = writeString view 8 (js ''WAVE'');
          view = writeString view 12 (js ''fmt '');
          view = setUint32 view 16 16;
          view = setUint16 view 20 1;
          view = setUint16 view 22 numChannels;
          view = setUint32 view 24 rate;
          view = setUint32 view 28 byteRate;
          view = setUint16 view 32 blockAlign;
          view = setUint16 view 34 bitsPerSample;
          view = writeString view 36 (js ''data'');
          view = setUint32 view 40 dataSize
      in view)"

definition interleave :: "heap \<Rightarrow> AudioBuffer \<Rightarrow> jsnum list" where
  "interleave h buffer =
     (let numChannels = int (numberOfChannels buffer);
          len = int (length_buf buffer);
          result = replicate (nat (len * numChannels)) (Fin 0)
      in for_loop 0 numChannels
           (\<lambda>channel result.
              let channelData = getChannelData buffer channel
              in for_loop 0 len
                   (\<lambda>i result. ta_set result (i * numChannels + channel) (arr_get h channelData i))
                   result)
           result)"

text \<open>
  Storing a number into an \<open>Int16Array\<close>: \<open>NaN\<close> and the infinities become 0, a finite
  number is truncated towards zero and taken modulo \<open>2^16\<close>.
\<close>

definition trunc :: "real \<Rightarrow> int" where
  "trunc x = (if x < 0 then \<lceil>x\<rceil> else \<lfloor>x\<rfloor>)"

fun ToInt16 :: "jsnum \<Rightarrow> 16 word" where
  "ToInt16 (Fin x) = word_of_int (trunc x)"
| "ToInt16 v = 0"

text \<open>
  \<open>new Uint8Array(int16Array.buffer)\<close> views the same memory as bytes, in the byte order
  of the platform: little-endian on every platform a browser runs on.
\<close>

definition int16_bytes :: "16 word \<Rightarrow> byte list" where
  "int16_bytes w = [ucast w, ucast (drop_bit 8 w)]"

definition floatTo16BitPCM :: "jsnum list \<Rightarrow> byte list" where
  "floatTo16BitPCM floatArray =
     (let len = int (length floatArray);
          int16Array = replicate (nat len) (0 :: 16 word);
          int16Array = for_loop 0 len
            (\<lambda>i int16Array.
               let s = Math_max (Fin (- 1)) (Math_min (Fin 1) (ta_get floatArray i))
               in ta_set int16Array i
                    (ToInt16 (if jslt s (Fin 0) then jsmul s (Fin 32768) else jsmul s (Fin 32767))))
            int16Array
      in concat (map int16_bytes int16Array))"

record Blob =
  blob_bytes :: "byte list"
  blob_type :: string

definition bufferToWav :: "heap \<Rightarrow> AudioBuffer \<Rightarrow> Blob" where
  "bufferToWav h buffer =
     (let numChannels = numberOfChannels buffer;
          rate = sampleRate buffer;
          len = length_buf buffer;
          wavHeader = createWavHeader numChannels rate len;
          interleaved = interleave h buffer;
          pcmData = floatTo16BitPCM interleaved;
          wavData = wavHeader @ pcmData
      in \<lparr>blob_bytes = wavData, blob_type = ''audio/wav''\<rparr>)"

section \<open>AudioProcessor.applyFade, applyGain and normalize\<close>

text \<open>
  These three change the arrays of the buffer in the store and return the buffer they got.
  The two durations of \<open>applyFade\<close> default to 0 in the source and are passed explicitly
  here.
\<close>

definition applyFade :: "heap \<Rightarrow> AudioBuffer \<Rightarrow> real \<Rightarrow> real \<Rightarrow> heap \<times> AudioBuffer" where
  "applyFade h buffer fadeInDuration fadeOutDuration =
     (let rate = sampleRate buffer;
          fadeInSamples = \<lfloor>fadeInDuration * real rate\<rfloor>;
          fadeOutSamples = \<lfloor>fadeOutDuration * real rate\<rfloor>
      in (for_loop 0 (int (numberOfChannels buffer))
            (\<lambda>channel h.
               let channelData = getChannelData buffer channel;
                   h = for_loop 0 fadeInSamples
                         (\<lambda>i h. arr_set h channelData i
                                  (jsmul (arr_get h channelData i)
                                         (jsdiv (Fin (of_int i)) (Fin (of_int fadeInSamples)))))
                         h;
                   startFadeOut = int (length_buf buffer) - fadeOutSamples
               in for_loop 0 fadeOutSamples
                    (\<lambda>i h. let index = startFadeOut + i
                            in arr_set h channelData index
                                 (jsmul (arr_get h channelData index)
                                        (jssub (Fin 1)
                                               (jsdiv (Fin (of_int i)) (Fin (of_int fadeOutSamples))))))
                    h)
            h,
          buffer))"

definition applyGain :: "heap \<Rightarrow> AudioBuffer \<Rightarrow> jsnum \<Rightarrow> heap \<times> AudioBuffer" where
  "applyGain h buffer gain =
     (for_loop 0 (int (numberOfChannels buffer))
        (\<lambda>channel h.
           let channelData = getChannelData buffer channel
           in for_loop 0 (int (length_buf buffer))
                (\<lambda>i h. arr_set h channelData i (jsmul (arr_get h channelData i) gain)) h)
        h,
      buffer)"

text \<open>The scan of \<open>normalize\<close>: the value of its local \<open>maxAmplitude\<close> after the two loops.\<close>

definition maxAmplitude :: "heap \<Rightarrow> AudioBuffer \<Rightarrow> jsnum" where
  "maxAmplitude h buffer =
     for_loop 0 (int (numberOfChannels buffer))
       (\<lambda>channel m.
          let channelData = getChannelData buffer channel
          in for_loop 0 (int (length_buf buffer))
               (\<lambda>i m. Math_max m (Math_abs (arr_get h channelData i))) m)
       (Fin 0)"

definition normalize_buffer :: "heap \<Rightarrow> AudioBuffer \<Rightarrow> heap \<times> AudioBuffer" where
  "normalize_buffer h buffer =
     (let m = maxAmplitude h buffer
      in if jsgt m (Fin 0) \<and> jslt m (Fin 1)
         then (let gain = jsdiv (Fin (95 / 100)) m in applyGain h buffer gain)
         else (h, buffer))"

section \<open>AudioProcessor.timeToSeconds\<close>

text \<open>\<open>timeStr.split(':')\<close>: the pieces between the colons; one (empty) piece for the empty string.\<close>

fun js_split :: "jsstring \<Rightarrow> jsstring list" where
  "js_split [] = [[]]"
| "js_split (c # cs) =
     (if c = 58 then [] # js_split cs
      else case js_split cs of p # ps \<Rightarrow> (c # p) # ps | [] \<Rightarrow> [[c]])"

text \<open>
  \<open>parseFloat\<close>, as ECMAScript defines it: skip leading white space, then take the
  longest prefix that is a decimal literal (an optional sign, then \<open>Infinity\<close>, or digits
  with an optional fraction, or a fraction alone, and an exponent if it is complete);
  \<open>NaN\<close> when there is none. The value is the exact decimal value.
\<close>

definition isWhiteSpace :: "nat \<Rightarrow> bool" where
  "isWhiteSpace c \<longleftrightarrow>
     c \<in> {9, 10, 11, 12, 13, 32, 160, 5760, 8232, 8233, 8239, 8287, 12288, 65279}
     \<or> (8192 \<le> c \<and> c \<le> 8202)"

definition isDigit :: "nat \<Rightarrow> bool" where
  "isDigit c \<longleftrightarrow> 48 \<le> c \<and> c \<le> 57"

definition digits_value :: "nat list \<Rightarrow> nat" where
  "digits_value ds = foldl (\<lambda>a c. 10 * a + (c - 48)) 0 ds"

definition exponent_value :: "jsstring \<Rightarrow> int" where
  "exponent_value r =
     (case r of
        [] \<Rightarrow> 0
      | e # r1 \<Rightarrow>
          if e = 101 \<or> e = 69 then
            (let (neg, r2) = (case r1 of
                                [] \<Rightarrow> (False, [])
                              | c # t \<Rightarrow> if c = 45 then (True, t) else if c = 43 then (False, t)
                                         else (False, r1));
                 ds = takeWhile isDigit r2
             in if ds = [] then 0
                else if neg then - int (digits_value ds) else int (digits_value ds))
          else 0)"

definition parseFloat :: "jsstring \<Rightarrow> jsnum" where
  "parseFloat s =
     (let t = dropWhile isWhiteSpace s;
          (neg, u) = (case t of
                        [] \<Rightarrow> (False, [])
                      | c # r \<Rightarrow> if c = 45 then (True, r) else if c = 43 then (False, r)
                                 else (False, t))
      in if take 8 u = js ''Infinity'' then (if neg then NInf else PInf)
         else
           (let ip = takeWhile isDigit u;
                r1 = dropWhile isDigit u;
                (fp, r2) = (case r1 of
                              [] \<Rightarrow> ([], [])
                            | c # r \<Rightarrow> if c = 46 then (takeWhile isDigit r, dropWhile isDigit r)
                                       else ([], r1))
            in if ip = [] \<and> fp = [] then NaN
               else
                 (let mantissa = real (digits_value (ip @ fp)) / 10 ^ length fp;
                      v = mantissa * 10 powi exponent_value r2
                  in Fin (if neg then - v else v))))"

definition timeToSeconds :: "jsstring \<Rightarrow> jsnum" where
  "timeToSeconds timeStr =
     (let parts = js_split timeStr;
          seconds = Fin 0;
          seconds =
            (if length parts = 3 then
               (let seconds = jsadd seconds (jsmul (parseFloat (parts ! 0)) (Fin 3600));
                    seconds = jsadd seconds (jsmul (parseFloat (parts ! 1)) (Fin 60));
                    seconds = jsadd seconds (parseFloat (parts ! 2))
                in seconds)
             else if length parts = 2 then
               (let seconds = jsadd seconds (jsmul (parseFloat (parts ! 0)) (Fin 60));
                    seconds = jsadd seconds (parseFloat (parts ! 1))
                in seconds)
             else if length parts = 1 then jsadd seconds (parseFloat (parts ! 0))
             else seconds)
      in if isNaN seconds then Fin 0 else seconds)"

section \<open>Double precision\<close>

text \<open>
  The numbers of the program are IEEE-754 doubles. Above they are exact, which is what the
  program computes wherever no rounding decides what it does. One rounding does decide:
  \<open>Math.floor\<close> of the product of a time and the sample rate loses a frame when the
  product is rounded to just below a whole number. \<open>round_double x\<close> is the double nearest
  to \<open>x\<close>, ties to the even significand: 53 significant bits, the unit fixed at \<open>2^-1074\<close>
  below \<open>2^-1022\<close>. Overflow to infinity, far beyond any time in seconds, is not modelled.
\<close>

text \<open>The number of binary digits of a natural number.\<close>

fun bitlen :: "nat \<Rightarrow> nat" where
  "bitlen n = (if n = 0 then 0 else Suc (bitlen (n div 2)))"

declare bitlen.simps [simp del]

text \<open>The binary exponent of a positive number: \<open>2 ^ binexp x \<le> x < 2 ^ (binexp x + 1)\<close>.\<close>

definition binexp :: "real \<Rightarrow> int" where
  "binexp x = (if 1 \<le> x then int (bitlen (nat \<lfloor>x\<rfloor>)) - 1
               else - int (bitlen (nat (\<lceil>1 / x\<rceil> - 1))))"

definition pow2 :: "int \<Rightarrow> real" where
  "pow2 k = (if 0 \<le> k then 2 ^ nat k else 1 / 2 ^ nat (- k))"

text \<open>The nearest integer, the even one of the two when they are equally near.\<close>

definition round_even :: "real \<Rightarrow> int" where
  "round_even y =
     (let f = \<lfloor>y\<rfloor>; r = y - of_int f
      in if r < 1 / 2 then f else if 1 / 2 < r then f + 1 else if even f then f else f + 1)"

definition round_double :: "real \<Rightarrow> real" where
  "round_double x =
     (if x = 0 then 0
      else let e = max (binexp \<bar>x\<bar>) (- 1022); q = pow2 (e - 52)
           in of_int (round_even (x / q)) * q)"

text \<open>\<open>buffer.duration\<close> as the platform holds it: the double nearest to \<open>length / sampleRate\<close>.\<close>

definition duration_double :: "AudioBuffer \<Rightarrow> real" where
  "duration_double buffer = round_double (real (length_buf buffer) / real (sampleRate buffer))"

text \<open>
  \<open>trimAudio\<close> with the two products rounded to doubles, as \<open>Math.floor\<close> receives them;
  the times are themselves doubles. Everything else is \<open>trimAudio\<close> as above.
\<close>

definition trimAudio_double :: "heap \<Rightarrow> AudioBuffer \<Rightarrow> real \<Rightarrow> real \<Rightarrow> error + heap \<times> AudioBuffer" where
  "trimAudio_double h buffer startTime endTime =
     (let rate = sampleRate buffer;
          startSample = \<lfloor>round_double (startTime * real rate)\<rfloor>;
          endSample = \<lfloor>round_double (endTime * real rate)\<rfloor>;
          frameCount = endSample - startSample
      in case createBuffer h (int (numberOfChannels buffer)) frameCount (int rate) of
           Inl e \<Rightarrow> Inl e
         | Inr (h1, newBuffer) \<Rightarrow>
             Inr (for_loop 0 (int (numberOfChannels buffer))
                    (\<lambda>channel h.
                       let channelData = getChannelData buffer channel;
                           newChannelData = getChannelData newBuffer channel
                       in for_loop 0 frameCount
                            (\<lambda>i h. arr_set h newChannelData i
                                     (arr_get h channelData (startSample + i))) h)
                    h1,
                  newBuffer))"

section \<open>Notions used in the statements\<close>

text \<open>What a slice of \<open>n\<close> frames from frame \<open>s\<close> on reads from the array \<open>xs\<close>.\<close>

definition slice_of :: "jsnum list \<Rightarrow> int \<Rightarrow> nat \<Rightarrow> jsnum list" where
  "slice_of xs s n = map (\<lambda>i. ta_get xs (s + int i)) [0..<n]"

text \<open>
  The fade envelope at frame \<open>j\<close> of \<open>frameCount\<close>: a sample among the first
  \<open>fadeInSamples\<close> is scaled by \<open>j / fadeInSamples\<close>, then a sample at
  \<open>frameCount - fadeOutSamples + i\<close> with \<open>0 \<le> i < fadeOutSamples\<close> by
  \<open>1 - i / fadeOutSamples\<close>.
\<close>

definition faded :: "int \<Rightarrow> int \<Rightarrow> nat \<Rightarrow> nat \<Rightarrow> jsnum \<Rightarrow> jsnum" where
  "faded fadeInSamples fadeOutSamples frameCount j x =
     (let y = (if int j < fadeInSamples
               then jsmul x (Fin (real j / real_of_int fadeInSamples)) else x);
          i = int j - (int frameCount - fadeOutSamples)
      in if 0 \<le> i \<and> i < fadeOutSamples
         then jsmul y (Fin (1 - real_of_int i / real_of_int fadeOutSamples)) else y)"

text \<open>The 16-bit integer that the loop of \<open>floatTo16BitPCM\<close> stores for one sample.\<close>

definition sample_int16 :: "jsnum \<Rightarrow> 16 word" where
  "sample_int16 x =
     (let s = Math_max (Fin (- 1)) (Math_min (Fin 1) x)
      in ToInt16 (if jslt s (Fin 0) then jsmul s (Fin 32768) else jsmul s (Fin 32767)))"

text \<open>
  The quantization as the specification words it: clamp to \<open>[-1, 1]\<close>, scale by 32768 below
  zero and by 32767 otherwise, round towards zero.
\<close>

definition quantize_spec :: "real \<Rightarrow> int" where
  "quantize_spec x =
     (let c = max (- 1) (min 1 x)
      in if c < 0 then \<lceil>c * 32768\<rceil> else \<lfloor>c * 32767\<rfloor>)"

text \<open>
  The header as the specification lays it out. A field of \<open>k\<close> bytes holds its value with
  the low byte first; \<open>le_value\<close> reads such a field back.
\<close>

definition le_bytes :: "nat \<Rightarrow> nat \<Rightarrow> byte list" where
  "le_bytes k n = map (\<lambda>i. word_of_nat (n div 256 ^ i)) [0..<k]"

definition le_value :: "byte list \<Rightarrow> nat" where
  "le_value bs = foldr (\<lambda>b n. unat b + 256 * n) bs 0"

definition tag :: "string \<Rightarrow> byte list" where
  "tag s = map (\<lambda>c. word_of_nat (of_char c)) s"

definition wav_header_spec :: "nat \<Rightarrow> nat \<Rightarrow> nat \<Rightarrow> byte list" where
  "wav_header_spec channelCount rate frameCount =
     (let dataSize = frameCount * channelCount * 2
      in tag ''RIFF'' @ le_bytes 4 (36 + dataSize) @ tag ''WAVE'' @
         tag ''fmt '' @ le_bytes 4 16 @ le_bytes 2 1 @ le_bytes 2 channelCount @
         le_bytes 4 rate @ le_bytes 4 (rate * channelCount * 2) @
         le_bytes 2 (channelCount * 2) @ le_bytes 2 16 @
         tag ''data'' @ le_bytes 4 dataSize)"

text \<open>The parts of a text put together again, with a colon between neighbours.\<close>

fun js_join :: "jsstring list \<Rightarrow> jsstring" where
  "js_join [] = []"
| "js_join [p] = p"
| "js_join (p # q # ps) = p @ 58 # js_join (q # ps)"

text \<open>A store with one mono buffer of two frames at 8000 Hz, for the concrete instances.\<close>

definition example_buffer :: AudioBuffer where
  "example_buffer = \<lparr>sampleRate = 8000, length_buf = 2, channelData = [0]\<rparr>"

definition example_heap :: heap where
  "example_heap = [[Fin 1, Fin (- 1 / 2)]]"

text \<open>A mono buffer of 15 frames at 11025 Hz, the samples \<open>0, 1/16, \<dots>, 14/16\<close>.\<close>

definition frames15 :: "jsnum list" where
  "frames15 = map (\<lambda>k. Fin (real k / 16)) [0..<15]"

definition buffer15 :: AudioBuffer where
  "buffer15 = \<lparr>sampleRate = 11025, length_buf = 15, channelData = [0]\<rparr>"

definition heap15 :: heap where
  "heap15 = [frames15]"

section \<open>Loops, arrays and the store: basic facts\<close>


lemma for_loop_step: "i < n \<Longrightarrow> for_loop i n body s = for_loop (i + 1) n body (body i s)"
  by (simp add: for_loop.simps)

lemma for_loop_done: "\<not> i < n \<Longrightarrow> for_loop i n body s = s"
  by (simp add: for_loop.simps)

lemma for_loop_invariant:
  assumes "i \<le> n" and "P i s"
    and "\<And>k t. i \<le> k \<Longrightarrow> k < n \<Longrightarrow> P k t \<Longrightarrow> P (k + 1) (body k t)"
  shows "P n (for_loop i n body s)"
  using assms
proof (induction i n body s rule: for_loop.induct)
  case (1 i n body s)
  show ?case
  proof (cases "i < n")
    case True
    have "P n (for_loop (i + 1) n body (body i s))"
    proof (rule "1.IH" [OF True])
      show "i + 1 \<le> n" using True by simp
      show "P (i + 1) (body i s)" using "1.prems" True by simp
      show "\<And>k t. i + 1 \<le> k \<Longrightarrow> k < n \<Longrightarrow> P k t \<Longrightarrow> P (k + 1) (body k t)"
        using "1.prems"(3) by simp
    qed
    then show ?thesis using True by (simp add: for_loop_step)
  next
    case False
    then have "i = n" using "1.prems"(1) by simp
    then show ?thesis using "1.prems"(2) by (simp add: for_loop_done)
  qed
qed

lemma ta_get_in: "0 \<le> i \<Longrightarrow> i < int (length xs) \<Longrightarrow> ta_get xs i = xs ! nat i"
  by (simp add: ta_get_def)

lemma ta_get_out: "i < 0 \<or> int (length xs) \<le> i \<Longrightarrow> ta_get xs i = NaN"
  by (auto simp: ta_get_def)

lemma length_ta_set: "length (ta_set xs i v) = length xs"
  by (simp add: ta_set_def)

lemma nth_ta_set:
  "j < length xs \<Longrightarrow> ta_set xs i v ! j = (if i = int j then v else xs ! j)"
  by (auto simp: ta_set_def nth_list_update)

text \<open>A loop that stores at \<open>off + k\<close> a value that depends on the array at \<open>off + k\<close> only.\<close>

lemma ta_loop_general:
  assumes val: "\<And>k t. i \<le> k \<Longrightarrow> k < n \<Longrightarrow> 0 \<le> off + k \<Longrightarrow> off + k < int (length xs) \<Longrightarrow>
                  length t = length xs \<Longrightarrow> t ! nat (off + k) = xs ! nat (off + k) \<Longrightarrow> val k t = w k"
  shows "length (for_loop i n (\<lambda>k t. ta_set t (off + k) (val k t)) xs) = length xs \<and>
         (\<forall>j < length xs. for_loop i n (\<lambda>k t. ta_set t (off + k) (val k t)) xs ! j =
            (if off + i \<le> int j \<and> int j < off + n then w (int j - off) else xs ! j))"
proof (cases "i \<le> n")
  case False
  then show ?thesis by (auto simp: for_loop_done)
next
  case True
  define P where "P k t \<longleftrightarrow> length t = length xs \<and>
     (\<forall>j < length xs. t ! j = (if off + i \<le> int j \<and> int j < off + k then w (int j - off) else xs ! j))"
    for k t
  have "P n (for_loop i n (\<lambda>k t. ta_set t (off + k) (val k t)) xs)"
  proof (rule for_loop_invariant [OF True])
    show "P i xs" by (auto simp: P_def)
  next
    fix k t assume k: "i \<le> k" "k < n" and P: "P k t"
    have len: "length t = length xs" using P by (simp add: P_def)
    show "P (k + 1) (ta_set t (off + k) (val k t))"
      unfolding P_def
    proof (intro conjI allI impI)
      show "length (ta_set t (off + k) (val k t)) = length xs"
        using len by (simp add: length_ta_set)
      fix j assume j: "j < length xs"
      show "ta_set t (off + k) (val k t) ! j =
            (if off + i \<le> int j \<and> int j < off + (k + 1) then w (int j - off) else xs ! j)"
      proof (cases "off + k = int j")
        case True
        then have "t ! nat (off + k) = xs ! nat (off + k)"
          using P j by (simp add: P_def)
        then have "val k t = w k"
          using val [of k t] k len True j by simp
        then have "ta_set t (off + k) (val k t) ! j = w k"
          using True j len by (simp add: nth_ta_set)
        moreover have "int j - off = k" using True by linarith
        moreover have "off + i \<le> int j \<and> int j < off + (k + 1)" using True k by linarith
        ultimately show ?thesis by simp
      next
        case False
        then show ?thesis using P j len by (auto simp: nth_ta_set P_def)
      qed
    qed
  qed
  then show ?thesis by (simp add: P_def)
qed

lemma ta_loop_fill:
  "for_loop 0 (int n) (\<lambda>k t. ta_set t k (v k)) (replicate n z) = map (\<lambda>j. v (int j)) [0..<n]"
proof (rule nth_equalityI)
  note g = ta_loop_general [of 0 "int n" 0 "replicate n z" "\<lambda>k t. v k" v, simplified]
  show "length (for_loop 0 (int n) (\<lambda>k t. ta_set t k (v k)) (replicate n z)) =
        length (map (\<lambda>j. v (int j)) [0..<n])"
    using g by simp
  fix j assume "j < length (for_loop 0 (int n) (\<lambda>k t. ta_set t k (v k)) (replicate n z))"
  then have "j < n" using g by simp
  then show "for_loop 0 (int n) (\<lambda>k t. ta_set t k (v k)) (replicate n z) ! j =
             map (\<lambda>j. v (int j)) [0..<n] ! j"
    using g by simp
qed

text \<open>Loops on one array of the store are loops on that array.\<close>

lemma arr_loop_self:
  "a < length h \<Longrightarrow>
   for_loop i n (\<lambda>k h. arr_set h a (p k) (g k (arr_get h a (p k)))) h =
   h[a := for_loop i n (\<lambda>k xs. ta_set xs (p k) (g k (ta_get xs (p k)))) (h ! a)]"
proof (induction "nat (n - i)" arbitrary: i h)
  case 0
  then show ?case by (simp add: for_loop_done)
next
  case (Suc m)
  then have lt: "i < n" by simp
  let ?h = "arr_set h a (p i) (g i (arr_get h a (p i)))"
  have h': "?h = h[a := ta_set (h ! a) (p i) (g i (ta_get (h ! a) (p i)))]"
    using Suc.prems by (simp add: arr_set_def arr_get_def)
  have "for_loop (i + 1) n (\<lambda>k h. arr_set h a (p k) (g k (arr_get h a (p k)))) ?h =
        ?h[a := for_loop (i + 1) n (\<lambda>k xs. ta_set xs (p k) (g k (ta_get xs (p k)))) (?h ! a)]"
    using Suc.hyps(2) Suc.prems by (intro Suc.hyps(1)) (simp_all add: arr_set_def)
  then show ?case
    using lt Suc.prems by (simp add: for_loop_step [OF lt] h')
qed

lemma arr_loop_copy:
  "a < length h \<Longrightarrow> c \<noteq> a \<Longrightarrow>
   for_loop i n (\<lambda>k h. arr_set h a (p k) (arr_get h c (q k))) h =
   h[a := for_loop i n (\<lambda>k xs. ta_set xs (p k) (arr_get h c (q k))) (h ! a)]"
proof (induction "nat (n - i)" arbitrary: i h)
  case 0
  then show ?case by (simp add: for_loop_done)
next
  case (Suc m)
  then have lt: "i < n" by simp
  let ?h = "arr_set h a (p i) (arr_get h c (q i))"
  have h': "?h = h[a := ta_set (h ! a) (p i) (arr_get h c (q i))]"
    using Suc.prems by (simp add: arr_set_def)
  have same: "arr_get ?h c j = arr_get h c j" for j
    using Suc.prems by (simp add: arr_get_def arr_set_def)
  have "for_loop (i + 1) n (\<lambda>k h. arr_set h a (p k) (arr_get h c (q k))) ?h =
        ?h[a := for_loop (i + 1) n (\<lambda>k xs. ta_set xs (p k) (arr_get ?h c (q k))) (?h ! a)]"
    using Suc.hyps(2) Suc.prems by (intro Suc.hyps(1)) (simp_all add: arr_set_def)
  then show ?case
    using lt Suc.prems by (simp add: for_loop_step [OF lt] same) (simp add: h')
qed

lemma channel_loop:
  assumes d: "distinct as"
    and body: "\<And>c t. c < length as \<Longrightarrow> length t = length h \<Longrightarrow>
                 (\<forall>x. x \<notin> set as \<longrightarrow> t ! x = h ! x) \<Longrightarrow>
                 body (int c) t = t[as ! c := F c (t ! (as ! c))]"
    and inb: "\<forall>a \<in> set as. a < length h"
  shows "length (for_loop 0 (int (length as)) body h) = length h \<and>
         (\<forall>c < length as. for_loop 0 (int (length as)) body h ! (as ! c) = F c (h ! (as ! c))) \<and>
         (\<forall>x. x \<notin> set as \<longrightarrow> for_loop 0 (int (length as)) body h ! x = h ! x)"
proof -
  define P where "P k t \<longleftrightarrow> 0 \<le> k \<and> length t = length h \<and> (\<forall>x. x \<notin> set as \<longrightarrow> t ! x = h ! x) \<and>
     (\<forall>c < length as. t ! (as ! c) = (if int c < k then F c (h ! (as ! c)) else h ! (as ! c)))" for k t
  have "P (int (length as)) (for_loop 0 (int (length as)) body h)"
  proof (rule for_loop_invariant)
    show "0 \<le> int (length as)" by simp
    show "P 0 h" by (simp add: P_def)
  next
    fix k t assume k: "0 \<le> k" "k < int (length as)" and P: "P k t"
    define c where "c = nat k"
    have c: "c < length as" "k = int c" using k by (simp_all add: c_def)
    have b: "body k t = t[as ! c := F c (t ! (as ! c))]"
      using body [of c t] P c by (simp add: P_def)
    have tc: "t ! (as ! c) = h ! (as ! c)" using P c by (simp add: P_def)
    have lt: "as ! c < length t" using inb c P by (simp add: P_def)
    show "P (k + 1) (body k t)"
      unfolding P_def b
    proof (intro conjI allI impI)
      show "0 \<le> k + 1" using k by simp
      show "length (t[as ! c := F c (t ! (as ! c))]) = length h" using P by (simp add: P_def)
      show "t[as ! c := F c (t ! (as ! c))] ! x = h ! x" if "x \<notin> set as" for x
      proof -
        have "x \<noteq> as ! c" using that c by auto
        then show ?thesis using P that by (simp add: P_def)
      qed
      show "t[as ! c := F c (t ! (as ! c))] ! (as ! c') =
            (if int c' < k + 1 then F c' (h ! (as ! c')) else h ! (as ! c'))" if "c' < length as" for c'
      proof (cases "c' = c")
        case True
        then show ?thesis using lt tc c by simp
      next
        case False
        then have "as ! c' \<noteq> as ! c" using d that c by (simp add: nth_eq_iff_index_eq)
        then show ?thesis using P that False c by (simp add: P_def) 
      qed
    qed
  qed
  then show ?thesis by (simp add: P_def)
qed

section \<open>The result of trimAudio\<close>


lemma valid_buffer_addr:
  "valid_buffer h b \<Longrightarrow> k < numberOfChannels b \<Longrightarrow>
   channelData b ! k < length h \<and> length (h ! (channelData b ! k)) = length_buf b"
  by (simp add: valid_buffer_def numberOfChannels_def list_all_length)

lemma trimAudio_result:
  assumes v: "valid_buffer h b"
    and s: "s = \<lfloor>startTime * real (sampleRate b)\<rfloor>"
    and e: "e = \<lfloor>endTime * real (sampleRate b)\<rfloor>"
    and lt: "s < e"
  shows "\<exists>h'. trimAudio h b startTime endTime =
           Inr (h', \<lparr>sampleRate = sampleRate b, length_buf = nat (e - s),
                     channelData = [length h ..< length h + numberOfChannels b]\<rparr>)
         \<and> length h' = length h + numberOfChannels b
         \<and> (\<forall>a < length h. h' ! a = h ! a)
         \<and> (\<forall>k < numberOfChannels b.
              h' ! (length h + k) = slice_of (h ! (channelData b ! k)) s (nat (e - s)))"
proof -
  define nch where "nch = numberOfChannels b"
  define n where "n = nat (e - s)"
  define h1 where "h1 = h @ replicate nch (replicate n (Fin 0))"
  define as where "as = [length h ..< length h + nch]"
  define nb where "nb = \<lparr>sampleRate = sampleRate b, length_buf = n, channelData = as\<rparr>"
  define F where "F c xs = for_loop 0 (int n)
      (\<lambda>k xs. ta_set xs k (ta_get (h ! (channelData b ! c)) (s + k))) xs" for c xs
  define body where "body channel t =
      (let channelData = getChannelData b channel; newChannelData = getChannelData nb channel
       in for_loop 0 (e - s)
            (\<lambda>i h. arr_set h newChannelData i (arr_get h channelData (s + i))) t)" for channel t
  have pos: "0 < nch" "0 < sampleRate b" using v by (simp_all add: valid_buffer_def nch_def)
  have en: "e - s = int n" using lt by (simp add: n_def)
  have las: "length as = nch" by (simp add: as_def)
  have cb: "createBuffer h (int nch) (e - s) (int (sampleRate b)) = Inr (h1, nb)"
    using pos lt by (simp add: createBuffer_def h1_def nb_def as_def n_def)
  have tr: "trimAudio h b startTime endTime = Inr (for_loop 0 (int nch) body h1, nb)"
    unfolding trimAudio_def Let_def s [symmetric] e [symmetric] nch_def [symmetric] cb body_def
    by simp
  have bodyF: "body (int c) t = t[as ! c := F c (t ! (as ! c))]"
    if c: "c < length as" and len: "length t = length h1"
      and same: "\<forall>x. x \<notin> set as \<longrightarrow> t ! x = h1 ! x" for c t
  proof -
    have c': "c < nch" using c las by simp
    let ?old = "channelData b ! c"
    have old: "?old < length h" using valid_buffer_addr [OF v] c' by (simp add: nch_def)
    have new: "as ! c = length h + c" using c' by (simp add: as_def)
    have newlt: "as ! c < length t" using c' len by (simp add: new h1_def)
    have ne: "?old \<noteq> as ! c" using old new by simp
    have "?old \<notin> set as" using old by (simp add: as_def)
    then have "t ! ?old = h ! ?old" using same old by (simp add: h1_def nth_append)
    then have rd: "arr_get t ?old j = ta_get (h ! ?old) j" for j
      using old len by (simp add: arr_get_def h1_def)
    have "body (int c) t =
          for_loop 0 (int n) (\<lambda>i h. arr_set h (as ! c) i (arr_get h ?old (s + i))) t"
      by (simp add: body_def Let_def getChannelData_def nb_def en)
    also have "\<dots> = t[as ! c := for_loop 0 (int n)
                 (\<lambda>k xs. ta_set xs k (arr_get t ?old (s + k))) (t ! (as ! c))]"
      by (rule arr_loop_copy [OF newlt ne])
    finally show ?thesis by (simp add: rd F_def)
  qed
  have "distinct as" by (simp add: as_def)
  moreover have "\<forall>a \<in> set as. a < length h1" by (auto simp: as_def h1_def)
  ultimately have loop:
    "length (for_loop 0 (int (length as)) body h1) = length h1 \<and>
     (\<forall>c < length as. for_loop 0 (int (length as)) body h1 ! (as ! c) = F c (h1 ! (as ! c))) \<and>
     (\<forall>x. x \<notin> set as \<longrightarrow> for_loop 0 (int (length as)) body h1 ! x = h1 ! x)"
    using bodyF by (intro channel_loop) auto
  let ?h' = "for_loop 0 (int nch) body h1"
  have 1: "length ?h' = length h + nch" using loop by (simp add: las h1_def)
  have 2: "?h' ! a = h ! a" if "a < length h" for a
  proof -
    have "a \<notin> set as" using that by (simp add: as_def)
    then show ?thesis using loop that by (simp add: las h1_def nth_append)
  qed
  have 3: "?h' ! (length h + k) = slice_of (h ! (channelData b ! k)) s n" if "k < nch" for k
  proof -
    have "?h' ! (as ! k) = F k (h1 ! (as ! k))" using loop that by (simp add: las)
    moreover have "as ! k = length h + k" using that by (simp add: as_def)
    moreover have "h1 ! (length h + k) = replicate n (Fin 0)"
      using that by (simp add: h1_def nth_append)
    ultimately show ?thesis by (simp add: F_def ta_loop_fill slice_of_def)
  qed
  show ?thesis
    using tr 1 2 3 by (simp add: nb_def as_def nch_def n_def)
qed

lemma replicate_numeral: "replicate (numeral v) x = x # replicate (numeral v - 1) x"
  by (simp add: numeral_eq_Suc)

lemmas trim_eval = trimAudio_def createBuffer_def numberOfChannels_def getChannelData_def
  replicate_numeral
lemmas loop_eval = for_loop_step for_loop_done arr_set_def arr_get_def ta_get_def ta_set_def

lemma valid_example: "valid_buffer example_heap example_buffer"
  by (simp add: valid_buffer_def example_heap_def example_buffer_def numberOfChannels_def)

lemma trimAudio_error:
  "\<lfloor>endTime * real (sampleRate b)\<rfloor> \<le> \<lfloor>startTime * real (sampleRate b)\<rfloor> \<Longrightarrow>
   trimAudio h b startTime endTime = Inl NotSupportedError"
  by (simp add: trimAudio_def createBuffer_def Let_def)

section \<open>Claims about trimAudio\<close>

text \<open>
  Claim C10. \<open>trimAudio\<close> does not check the range against the buffer: whenever
  \<open>0 \<le> startIndex < endIndex\<close> it returns a buffer of \<open>endIndex - startIndex\<close> frames and
  signals no error, also when \<open>endIndex\<close> is beyond the frames of the source; every frame
  of the result that lies beyond the source was read out of bounds and holds \<open>NaN\<close>.
\<close>

theorem trimAudio_no_bounds_check:
  assumes "valid_buffer h b"
    and "s = \<lfloor>startTime * real (sampleRate b)\<rfloor>"
    and "e = \<lfloor>endTime * real (sampleRate b)\<rfloor>"
    and "0 \<le> s" and "s < e"
  shows "\<exists>h' b'. trimAudio h b startTime endTime = Inr (h', b') \<and>
           int (length_buf b') = e - s \<and>
           (\<forall>k < numberOfChannels b. \<forall>i < length_buf b'.
              int (length_buf b) \<le> s + int i \<longrightarrow> h' ! (channelData b' ! k) ! i = NaN)"
proof -
  from trimAudio_result [OF assms(1-3) assms(5)] obtain h' where
    r: "trimAudio h b startTime endTime =
          Inr (h', \<lparr>sampleRate = sampleRate b, length_buf = nat (e - s),
                    channelData = [length h ..< length h + numberOfChannels b]\<rparr>)"
    and c: "\<forall>k < numberOfChannels b.
              h' ! (length h + k) = slice_of (h ! (channelData b ! k)) s (nat (e - s))"
    by blast
  have "h' ! (length h + k) ! i = NaN"
    if "k < numberOfChannels b" "i < nat (e - s)" "int (length_buf b) \<le> s + int i" for k i
  proof -
    have "length (h ! (channelData b ! k)) = length_buf b"
      using valid_buffer_addr [OF assms(1) that(1)] by simp
    then show ?thesis using c that by (simp add: slice_of_def ta_get_def)
  qed
  then show ?thesis using r assms(5) by simp
qed

theorem trimAudio_no_bounds_check_witness:
  "\<exists>h' b'. trimAudio example_heap example_buffer 0 (3 / 8000) = Inr (h', b') \<and>
     length_buf b' = 3 \<and> length_buf example_buffer = 2 \<and> h' ! (channelData b' ! 0) ! 2 = NaN"
proof -
  have "\<exists>h' b'. trimAudio example_heap example_buffer 0 (3 / 8000) = Inr (h', b') \<and>
           int (length_buf b') = 3 - 0 \<and>
           (\<forall>k < numberOfChannels example_buffer. \<forall>i < length_buf b'.
              int (length_buf example_buffer) \<le> 0 + int i \<longrightarrow> h' ! (channelData b' ! k) ! i = NaN)"
    by (rule trimAudio_no_bounds_check [OF valid_example])
       (simp_all add: example_buffer_def)
  then obtain h' b' where
    "trimAudio example_heap example_buffer 0 (3 / 8000) = Inr (h', b')"
    "int (length_buf b') = 3"
    "\<forall>k < numberOfChannels example_buffer. \<forall>i < length_buf b'.
       int (length_buf example_buffer) \<le> 0 + int i \<longrightarrow> h' ! (channelData b' ! k) ! i = NaN"
    by auto
  moreover have "numberOfChannels example_buffer = 1" "length_buf example_buffer = 2"
    by (simp_all add: example_buffer_def numberOfChannels_def)
  ultimately show ?thesis by auto
qed

text \<open>
  Claim C2. With \<open>0 \<le> startIndex < endIndex \<le> frameCount\<close>, \<open>trimAudio\<close> returns a
  buffer of \<open>endIndex - startIndex\<close> frames with the channel count and sample rate of the
  original; sample \<open>i\<close> of its channel \<open>k\<close> is sample \<open>startIndex + i\<close> of channel \<open>k\<close> of
  the original; its channels are newly allocated arrays, different from each other and from
  every array the store had, those of the original among them; and no array the store had
  is changed.
\<close>

theorem trimAudio_slice:
  assumes "valid_buffer h b"
    and "s = \<lfloor>startTime * real (sampleRate b)\<rfloor>"
    and "e = \<lfloor>endTime * real (sampleRate b)\<rfloor>"
    and "0 \<le> s" and "s < e" and "e \<le> int (length_buf b)"
  shows "\<exists>h' b'. trimAudio h b startTime endTime = Inr (h', b') \<and>
           int (length_buf b') = e - s \<and>
           numberOfChannels b' = numberOfChannels b \<and> sampleRate b' = sampleRate b \<and>
           (\<forall>k < numberOfChannels b. \<forall>i < length_buf b'.
              h' ! (channelData b' ! k) ! i = h ! (channelData b ! k) ! (nat s + i)) \<and>
           distinct (channelData b') \<and>
           (\<forall>a \<in> set (channelData b'). length h \<le> a \<and> a < length h' \<and> a \<notin> set (channelData b)) \<and>
           (\<forall>a < length h. h' ! a = h ! a)"
proof -
  from trimAudio_result [OF assms(1-3) assms(5)] obtain h' where
    r: "trimAudio h b startTime endTime =
          Inr (h', \<lparr>sampleRate = sampleRate b, length_buf = nat (e - s),
                    channelData = [length h ..< length h + numberOfChannels b]\<rparr>)"
    and l: "length h' = length h + numberOfChannels b"
    and o: "\<forall>a < length h. h' ! a = h ! a"
    and c: "\<forall>k < numberOfChannels b.
              h' ! (length h + k) = slice_of (h ! (channelData b ! k)) s (nat (e - s))"
    by blast
  have copy: "h' ! (length h + k) ! i = h ! (channelData b ! k) ! (nat s + i)"
    if "k < numberOfChannels b" "i < nat (e - s)" for k i
  proof -
    have "length (h ! (channelData b ! k)) = length_buf b"
      using valid_buffer_addr [OF assms(1) that(1)] by simp
    moreover have "nat (s + int i) = nat s + i" using assms(4) by (simp add: nat_add_distrib)
    moreover have "0 \<le> s + int i" "s + int i < int (length_buf b)"
      using that(2) assms(4,6) by linarith+
    ultimately show ?thesis using c that by (simp add: slice_of_def ta_get_def)
  qed
  have old: "a < length h" if "a \<in> set (channelData b)" for a
    using assms(1) that by (auto simp: valid_buffer_def list_all_iff)
  have fresh: "length h \<le> a \<and> a < length h' \<and> a \<notin> set (channelData b)"
    if "a \<in> set [length h ..< length h + numberOfChannels b]" for a
    using that l old [of a] by auto
  show ?thesis
    using r o copy fresh assms(5) by (simp add: numberOfChannels_def)
qed

theorem trimAudio_slice_witness:
  "\<exists>h'. trimAudio example_heap example_buffer (1 / 8000) (2 / 8000) =
           Inr (h', \<lparr>sampleRate = 8000, length_buf = 1, channelData = [1]\<rparr>) \<and>
         h' ! 1 ! 0 = Fin (- 1 / 2) \<and> h' ! 0 = [Fin 1, Fin (- 1 / 2)]"
proof -
  have "\<exists>h' b'. trimAudio example_heap example_buffer (1 / 8000) (2 / 8000) = Inr (h', b') \<and>
           int (length_buf b') = 2 - 1 \<and>
           numberOfChannels b' = numberOfChannels example_buffer \<and>
           sampleRate b' = sampleRate example_buffer \<and>
           (\<forall>k < numberOfChannels example_buffer. \<forall>i < length_buf b'.
              h' ! (channelData b' ! k) ! i = example_heap ! (channelData example_buffer ! k) ! (nat 1 + i)) \<and>
           distinct (channelData b') \<and>
           (\<forall>a \<in> set (channelData b'). length example_heap \<le> a \<and> a < length h' \<and>
              a \<notin> set (channelData example_buffer)) \<and>
           (\<forall>a < length example_heap. h' ! a = example_heap ! a)"
    by (rule trimAudio_slice [OF valid_example]) (simp_all add: example_buffer_def)
  moreover have "trimAudio example_heap example_buffer (1 / 8000) (2 / 8000) =
      Inr ([[Fin 1, Fin (- 1 / 2)], [Fin (- 1 / 2)]],
           \<lparr>sampleRate = 8000, length_buf = 1, channelData = [1]\<rparr>)"
    by (simp add: trim_eval example_heap_def example_buffer_def) (simp add: loop_eval)
  ultimately show ?thesis by simp
qed





section \<open>The in-place transforms\<close>

lemma ta_loop_pointwise:
  "length (for_loop 0 n (\<lambda>k t. ta_set t (off + k) (g k (ta_get t (off + k)))) xs) = length xs \<and>
   (\<forall>j < length xs. for_loop 0 n (\<lambda>k t. ta_set t (off + k) (g k (ta_get t (off + k)))) xs ! j =
      (if off \<le> int j \<and> int j < off + n then g (int j - off) (xs ! j) else xs ! j))"
proof -
  have "length (for_loop 0 n (\<lambda>k t. ta_set t (off + k) (g k (ta_get t (off + k)))) xs) = length xs \<and>
   (\<forall>j < length xs. for_loop 0 n (\<lambda>k t. ta_set t (off + k) (g k (ta_get t (off + k)))) xs ! j =
      (if off + 0 \<le> int j \<and> int j < off + n then (\<lambda>k. g k (xs ! nat (off + k))) (int j - off)
       else xs ! j))"
    by (rule ta_loop_general) (simp add: ta_get_def)
  then show ?thesis by simp
qed

lemma inplace_channels:
  assumes v: "valid_buffer h b"
    and body: "\<And>c t. c < numberOfChannels b \<Longrightarrow> channelData b ! c < length t \<Longrightarrow>
                 body (int c) t = t[channelData b ! c := F (t ! (channelData b ! c))]"
  shows "length (for_loop 0 (int (numberOfChannels b)) body h) = length h \<and>
         (\<forall>k < numberOfChannels b.
            for_loop 0 (int (numberOfChannels b)) body h ! (channelData b ! k) =
              F (h ! (channelData b ! k))) \<and>
         (\<forall>a. a \<notin> set (channelData b) \<longrightarrow>
            for_loop 0 (int (numberOfChannels b)) body h ! a = h ! a)"
  unfolding numberOfChannels_def
proof (rule channel_loop [where F = "\<lambda>c. F"])
  show "distinct (channelData b)" using v by (simp add: valid_buffer_def)
  show "\<forall>a \<in> set (channelData b). a < length h"
    using v by (simp add: valid_buffer_def list_all_iff)
  fix c and t :: heap
  assume c: "c < length (channelData b)" and len: "length t = length h"
  have "channelData b ! c < length h"
    using valid_buffer_addr [OF v, of c] c by (simp add: numberOfChannels_def)
  then show "body (int c) t = t[channelData b ! c := F (t ! (channelData b ! c))]"
    using body [of c t] c len by (simp add: numberOfChannels_def)
qed

lemma valid_buffer_inplace:
  assumes "valid_buffer h b" and "length H = length h"
    and "\<forall>k < numberOfChannels b. length (H ! (channelData b ! k)) = length_buf b"
  shows "valid_buffer H b"
  using assms by (simp add: valid_buffer_def list_all_length numberOfChannels_def)

lemma gain_array:
  "for_loop 0 (int (length xs)) (\<lambda>k t. ta_set t k (jsmul (ta_get t k) g)) xs =
   map (\<lambda>x. jsmul x g) xs"
proof (rule nth_equalityI)
  note p = ta_loop_pointwise [of "int (length xs)" 0 "\<lambda>k x. jsmul x g" xs, simplified]
  show "length (for_loop 0 (int (length xs)) (\<lambda>k t. ta_set t k (jsmul (ta_get t k) g)) xs) =
        length (map (\<lambda>x. jsmul x g) xs)"
    using p by simp
  fix j assume "j < length (for_loop 0 (int (length xs)) (\<lambda>k t. ta_set t k (jsmul (ta_get t k) g)) xs)"
  then have "j < length xs" using p by simp
  then show "for_loop 0 (int (length xs)) (\<lambda>k t. ta_set t k (jsmul (ta_get t k) g)) xs ! j =
             map (\<lambda>x. jsmul x g) xs ! j"
    using p by simp
qed

lemma applyGain_result:
  assumes v: "valid_buffer h b"
  shows "\<exists>H. applyGain h b g = (H, b) \<and> length H = length h \<and>
           (\<forall>k < numberOfChannels b.
              H ! (channelData b ! k) = map (\<lambda>x. jsmul x g) (h ! (channelData b ! k))) \<and>
           (\<forall>a. a \<notin> set (channelData b) \<longrightarrow> H ! a = h ! a)"
proof -
  define F where "F xs = for_loop 0 (int (length_buf b))
      (\<lambda>k t. ta_set t k (jsmul (ta_get t k) g)) xs" for xs
  define body where "body channel t =
      (let channelData = getChannelData b channel
       in for_loop 0 (int (length_buf b))
            (\<lambda>i h. arr_set h channelData i (jsmul (arr_get h channelData i) g)) t)" for channel t
  have b: "body (int c) t = t[channelData b ! c := F (t ! (channelData b ! c))]"
    if "c < numberOfChannels b" "channelData b ! c < length t" for c t
    using arr_loop_self [OF that(2), of 0 "int (length_buf b)" "\<lambda>k. k" "\<lambda>k x. jsmul x g"]
    by (simp add: body_def F_def getChannelData_def Let_def)
  note r = inplace_channels [OF v b, simplified]
  have "F (h ! (channelData b ! k)) = map (\<lambda>x. jsmul x g) (h ! (channelData b ! k))"
    if "k < numberOfChannels b" for k
    using valid_buffer_addr [OF v that] gain_array [of "h ! (channelData b ! k)" g]
    by (simp add: F_def)
  moreover have "applyGain h b g = (for_loop 0 (int (numberOfChannels b)) body h, b)"
    by (simp add: applyGain_def Let_def body_def [abs_def])
  ultimately show ?thesis using r by simp
qed

lemma fade_array:
  assumes "j < length xs"
  shows "length (for_loop 0 fo
            (\<lambda>k t. ta_set t (sfo + k) (jsmul (ta_get t (sfo + k)) (jssub (Fin 1) (jsdiv (Fin (of_int k)) (Fin (of_int fo))))))
            (for_loop 0 fi (\<lambda>k t. ta_set t k (jsmul (ta_get t k) (jsdiv (Fin (of_int k)) (Fin (of_int fi))))) xs))
         = length xs"
    and "sfo = int (length xs) - fo \<Longrightarrow>
         for_loop 0 fo
            (\<lambda>k t. ta_set t (sfo + k) (jsmul (ta_get t (sfo + k)) (jssub (Fin 1) (jsdiv (Fin (of_int k)) (Fin (of_int fo))))))
            (for_loop 0 fi (\<lambda>k t. ta_set t k (jsmul (ta_get t k) (jsdiv (Fin (of_int k)) (Fin (of_int fi))))) xs) ! j
         = faded fi fo (length xs) j (xs ! j)"
proof -
  let ?L1 = "for_loop 0 fi (\<lambda>k t. ta_set t k (jsmul (ta_get t k) (jsdiv (Fin (of_int k)) (Fin (of_int fi))))) xs"
  note p1 = ta_loop_pointwise [of fi 0 "\<lambda>k x. jsmul x (jsdiv (Fin (of_int k)) (Fin (of_int fi)))" xs, simplified]
  note p2 = ta_loop_pointwise [of fo sfo "\<lambda>k x. jsmul x (jssub (Fin 1) (jsdiv (Fin (of_int k)) (Fin (of_int fo))))" ?L1]
  show "length (for_loop 0 fo
            (\<lambda>k t. ta_set t (sfo + k) (jsmul (ta_get t (sfo + k)) (jssub (Fin 1) (jsdiv (Fin (of_int k)) (Fin (of_int fo))))))
            ?L1) = length xs"
    using p1 p2 by simp
  assume sfo: "sfo = int (length xs) - fo"
  have 1: "?L1 ! j = (if int j < fi then jsmul (xs ! j) (Fin (real j / real_of_int fi)) else xs ! j)"
    using p1 assms by auto
  have 2: "for_loop 0 fo
            (\<lambda>k t. ta_set t (sfo + k) (jsmul (ta_get t (sfo + k)) (jssub (Fin 1) (jsdiv (Fin (of_int k)) (Fin (of_int fo))))))
            ?L1 ! j =
        (if sfo \<le> int j \<and> int j < sfo + fo
         then jsmul (?L1 ! j) (jssub (Fin 1) (jsdiv (Fin (of_int (int j - sfo))) (Fin (of_int fo))))
         else ?L1 ! j)"
    using p1 p2 assms by simp
  have 3: "jssub (Fin 1) (jsdiv (Fin (of_int (int j - sfo))) (Fin (of_int fo))) =
           Fin (1 - real_of_int (int j - sfo) / real_of_int fo)"
    if "sfo \<le> int j" "int j < sfo + fo"
    using that by (simp add: jssub_def)
  show "for_loop 0 fo
            (\<lambda>k t. ta_set t (sfo + k) (jsmul (ta_get t (sfo + k)) (jssub (Fin 1) (jsdiv (Fin (of_int k)) (Fin (of_int fo))))))
            ?L1 ! j = faded fi fo (length xs) j (xs ! j)"
    unfolding 2 1 using 3 assms by (auto simp: faded_def Let_def sfo)
qed

lemma heap_eqI:
  assumes "length H = length (h :: heap)"
    and "\<And>a. a < length h \<Longrightarrow> H ! a = h ! a"
  shows "H = h"
  using assms by (simp add: nth_equalityI)

lemma applyFade_result:
  assumes "valid_buffer h b"
    and "fadeInSamples = \<lfloor>fadeInSeconds * real (sampleRate b)\<rfloor>"
    and "fadeOutSamples = \<lfloor>fadeOutSeconds * real (sampleRate b)\<rfloor>"
  shows "\<exists>H. applyFade h b fadeInSeconds fadeOutSeconds = (H, b) \<and> length H = length h \<and>
           (\<forall>k < numberOfChannels b.
              length (H ! (channelData b ! k)) = length_buf b \<and>
              (\<forall>j < length_buf b.
                 H ! (channelData b ! k) ! j =
                   faded fadeInSamples fadeOutSamples (length_buf b) j (h ! (channelData b ! k) ! j))) \<and>
           (\<forall>a. a \<notin> set (channelData b) \<longrightarrow> H ! a = h ! a) \<and>
           (fadeInSamples = 0 \<and> fadeOutSamples = 0 \<longrightarrow> H = h)"
proof -
  define fi where "fi = fadeInSamples"
  define fo where "fo = fadeOutSamples"
  define sfo where "sfo = int (length_buf b) - fo"
  define F where "F xs = for_loop 0 fo
      (\<lambda>k t. ta_set t (sfo + k) (jsmul (ta_get t (sfo + k))
                (jssub (Fin 1) (jsdiv (Fin (of_int k)) (Fin (of_int fo))))))
      (for_loop 0 fi (\<lambda>k t. ta_set t k (jsmul (ta_get t k)
                (jsdiv (Fin (of_int k)) (Fin (of_int fi))))) xs)" for xs
  define body where "body channel t =
      (let channelData = getChannelData b channel;
           h = for_loop 0 fi
                 (\<lambda>i h. arr_set h channelData i
                          (jsmul (arr_get h channelData i) (jsdiv (Fin (of_int i)) (Fin (of_int fi)))))
                 t;
           startFadeOut = int (length_buf b) - fo
       in for_loop 0 fo
            (\<lambda>i h. let index = startFadeOut + i
                    in arr_set h channelData index
                         (jsmul (arr_get h channelData index)
                                (jssub (Fin 1) (jsdiv (Fin (of_int i)) (Fin (of_int fo))))))
            h)" for channel t
  have ap: "applyFade h b fadeInSeconds fadeOutSeconds = (for_loop 0 (int (numberOfChannels b)) body h, b)"
    unfolding applyFade_def Let_def assms(2) [symmetric] assms(3) [symmetric]
    by (simp add: body_def [abs_def] Let_def fi_def fo_def)
  have bd: "body (int c) t = t[channelData b ! c := F (t ! (channelData b ! c))]"
    if "c < numberOfChannels b" and lt: "channelData b ! c < length t" for c t
  proof -
    let ?a = "channelData b ! c"
    let ?t1 = "t[?a := for_loop 0 fi (\<lambda>k xs. ta_set xs k (jsmul (ta_get xs k)
                 (jsdiv (Fin (of_int k)) (Fin (of_int fi))))) (t ! ?a)]"
    have 1: "for_loop 0 fi (\<lambda>i h. arr_set h ?a i
                (jsmul (arr_get h ?a i) (jsdiv (Fin (of_int i)) (Fin (of_int fi))))) t = ?t1"
      using arr_loop_self [OF lt, of 0 fi "\<lambda>k. k"
          "\<lambda>k x. jsmul x (jsdiv (Fin (of_int k)) (Fin (of_int fi)))"] by simp
    have lt1: "?a < length ?t1" using lt by simp
    have 2: "for_loop 0 fo (\<lambda>i h. arr_set h ?a (sfo + i)
                (jsmul (arr_get h ?a (sfo + i))
                   (jssub (Fin 1) (jsdiv (Fin (of_int i)) (Fin (of_int fo)))))) ?t1 =
             ?t1[?a := for_loop 0 fo (\<lambda>k xs. ta_set xs (sfo + k) (jsmul (ta_get xs (sfo + k))
                   (jssub (Fin 1) (jsdiv (Fin (of_int k)) (Fin (of_int fo)))))) (?t1 ! ?a)]"
      using arr_loop_self [OF lt1, of 0 fo "\<lambda>k. sfo + k"
          "\<lambda>k x. jsmul x (jssub (Fin 1) (jsdiv (Fin (of_int k)) (Fin (of_int fo))))"] by simp
    show ?thesis
      unfolding body_def Let_def getChannelData_def sfo_def [symmetric] nat_int 1 2 F_def
      using lt by (simp del: jsdiv.simps)
  qed
  note r = inplace_channels [OF assms(1) bd, simplified]
  let ?H = "for_loop 0 (int (numberOfChannels b)) body h"
  have ch: "length (?H ! (channelData b ! k)) = length_buf b \<and>
            (\<forall>j < length_buf b. ?H ! (channelData b ! k) ! j =
               faded fi fo (length_buf b) j (h ! (channelData b ! k) ! j))"
    if k: "k < numberOfChannels b" for k
  proof -
    let ?xs = "h ! (channelData b ! k)"
    have len: "length ?xs = length_buf b" using valid_buffer_addr [OF assms(1) k] by simp
    have H: "?H ! (channelData b ! k) = F ?xs" using r k by simp
    have "length (F ?xs) = length ?xs"
      unfolding F_def by (rule ta_loop_pointwise [THEN conjunct1, THEN trans])
        (rule ta_loop_pointwise [of fi 0, simplified, THEN conjunct1])
    moreover have "F ?xs ! j = faded fi fo (length ?xs) j (?xs ! j)" if "j < length ?xs" for j
      unfolding F_def using fade_array(2) [OF that, of sfo fo fi] by (simp add: sfo_def len)
    ultimately show ?thesis using H len by simp
  qed
  have same: "?H = h" if z: "fi = 0" "fo = 0"
  proof (rule heap_eqI)
    show "length ?H = length h" using r by simp
    fix a assume a: "a < length h"
    show "?H ! a = h ! a"
    proof (cases "a \<in> set (channelData b)")
      case False
      then show ?thesis using r by simp
    next
      case True
      then obtain k where k: "k < numberOfChannels b" "a = channelData b ! k"
        by (auto simp: in_set_conv_nth numberOfChannels_def)
      have len: "length (h ! a) = length_buf b" using valid_buffer_addr [OF assms(1) k(1)] k by simp
      have "?H ! a ! j = h ! a ! j" if "j < length_buf b" for j
        using ch [OF k(1)] k that z by (simp add: faded_def)
      then show ?thesis using ch [OF k(1)] k len by (simp add: nth_equalityI)
    qed
  qed
  show ?thesis using ap r ch same by (simp add: fi_def fo_def)
qed

text \<open>
  Claim C5. \<open>applyFade\<close> returns the buffer it got and changes its arrays in place: frame
  \<open>j\<close> of every channel becomes the old sample under the fade envelope, that is scaled by
  \<open>j / fadeInSamples\<close> when \<open>j < fadeInSamples\<close> and then by \<open>1 - i / fadeOutSamples\<close> when
  \<open>j = frameCount - fadeOutSamples + i\<close> with \<open>0 \<le> i < fadeOutSamples\<close>, both where the ramps
  overlap. No other array of the store changes, and with no fade-in and no fade-out
  samples nothing changes at all.
\<close>

theorem applyFade_envelope:
  assumes "valid_buffer h b" and "0 \<le> fadeInSeconds" and "0 \<le> fadeOutSeconds"
    and "fadeInSamples = \<lfloor>fadeInSeconds * real (sampleRate b)\<rfloor>"
    and "fadeOutSamples = \<lfloor>fadeOutSeconds * real (sampleRate b)\<rfloor>"
  shows "\<exists>H. applyFade h b fadeInSeconds fadeOutSeconds = (H, b) \<and> length H = length h \<and>
           (\<forall>k < numberOfChannels b.
              length (H ! (channelData b ! k)) = length_buf b \<and>
              (\<forall>j < length_buf b.
                 H ! (channelData b ! k) ! j =
                   faded fadeInSamples fadeOutSamples (length_buf b) j (h ! (channelData b ! k) ! j))) \<and>
           (\<forall>a. a \<notin> set (channelData b) \<longrightarrow> H ! a = h ! a) \<and>
           (fadeInSamples = 0 \<and> fadeOutSamples = 0 \<longrightarrow> H = h)"
  using applyFade_result [OF assms(1) assms(4) assms(5)] .

theorem applyFade_envelope_witness:
  "(\<exists>H. applyFade example_heap example_buffer (2 / 8000) (2 / 8000) = (H, example_buffer) \<and>
        H ! 0 ! 0 = Fin 0 \<and> H ! 0 ! 1 = Fin (- 1 / 8)) \<and>
   applyFade example_heap example_buffer 0 0 = (example_heap, example_buffer)"
proof -
  have e: "numberOfChannels example_buffer = 1" "length_buf example_buffer = 2"
    "channelData example_buffer = [0]"
    by (simp_all add: example_buffer_def numberOfChannels_def)
  have two: "(2::int) = \<lfloor>2 / 8000 * real (sampleRate example_buffer)\<rfloor>"
    and zero: "(0::int) = \<lfloor>0 * real (sampleRate example_buffer)\<rfloor>"
    by (simp_all add: example_buffer_def)
  have pos: "(0::real) \<le> 2 / 8000" "(0::real) \<le> 0" by simp_all
  from applyFade_envelope [OF valid_example pos(1) pos(1) two two]
  obtain H where H: "applyFade example_heap example_buffer (2 / 8000) (2 / 8000) = (H, example_buffer)"
    and ch: "\<forall>k < numberOfChannels example_buffer.
              length (H ! (channelData example_buffer ! k)) = length_buf example_buffer \<and>
              (\<forall>j < length_buf example_buffer.
                 H ! (channelData example_buffer ! k) ! j =
                   faded 2 2 (length_buf example_buffer) j
                     (example_heap ! (channelData example_buffer ! k) ! j))"
    by (elim exE conjE)
  from ch have "\<forall>j < 2. H ! 0 ! j = faded 2 2 2 j (example_heap ! 0 ! j)"
    by (simp add: e)
  then have "H ! 0 ! 0 = faded 2 2 2 0 (example_heap ! 0 ! 0)"
    and "H ! 0 ! 1 = faded 2 2 2 1 (example_heap ! 0 ! 1)"
    by simp_all
  then have 1: "H ! 0 ! 0 = Fin 0" "H ! 0 ! 1 = Fin (- 1 / 8)"
    by (simp_all add: faded_def example_heap_def)
  from applyFade_envelope [OF valid_example pos(2) pos(2) zero zero]
  have 2: "applyFade example_heap example_buffer 0 0 = (example_heap, example_buffer)"
    by (elim exE conjE) simp
  show ?thesis using H 1 2 by simp
qed

lemma jsmul_one: "jsmul x (Fin 1) = x"
  by (cases x) (simp_all add: inf_signed_def)

lemma Math_abs_scale: "0 < g \<Longrightarrow> Math_abs (jsmul x (Fin g)) = jsmul (Math_abs x) (Fin g)"
  by (cases x) (simp_all add: inf_signed_def abs_mult)

lemma Math_max_scale:
  "0 < g \<Longrightarrow> Math_max (jsmul x (Fin g)) (jsmul y (Fin g)) = jsmul (Math_max x y) (Fin g)"
  by (cases x; cases y) (simp_all add: Math_max_def inf_signed_def)

lemma for_loop_rel:
  assumes "R s s'"
    and "\<And>k t t'. i \<le> k \<Longrightarrow> k < n \<Longrightarrow> R t t' \<Longrightarrow> R (body k t) (body' k t')"
  shows "R (for_loop i n body s) (for_loop i n body' s')"
  using assms
proof (induction "nat (n - i)" arbitrary: i s s')
  case 0
  then show ?case by (simp add: for_loop_done)
next
  case (Suc m)
  then have lt: "i < n" by simp
  have "R (for_loop (i + 1) n body (body i s)) (for_loop (i + 1) n body' (body' i s'))"
  proof (rule Suc.hyps(1))
    show "m = nat (n - (i + 1))" using Suc.hyps(2) by simp
    show "R (body i s) (body' i s')" using Suc.prems lt by simp
    show "\<And>k t t'. i + 1 \<le> k \<Longrightarrow> k < n \<Longrightarrow> R t t' \<Longrightarrow> R (body k t) (body' k t')"
      using Suc.prems(2) by simp
  qed
  then show ?case by (simp add: for_loop_step [OF lt])
qed

lemma for_loop_cong:
  assumes "\<And>k t. i \<le> k \<Longrightarrow> k < n \<Longrightarrow> body k t = body' k t"
  shows "for_loop i n body s = for_loop i n body' s"
  by (rule for_loop_rel [where R = "(=)"]) (simp_all add: assms)

lemma ta_get_map_scale:
  "ta_get (map (\<lambda>x. jsmul x (Fin g)) xs) i = jsmul (ta_get xs i) (Fin g)"
  by (simp add: ta_get_def nat_less_iff)

lemma maxAmplitude_scale:
  assumes v: "valid_buffer h b" and g: "0 < g"
    and H: "\<forall>k < numberOfChannels b.
              H ! (channelData b ! k) = map (\<lambda>x. jsmul x (Fin g)) (h ! (channelData b ! k))"
    and len: "length H = length h"
  shows "maxAmplitude H b = jsmul (maxAmplitude h b) (Fin g)"
proof -
  define R where "R m m' \<longleftrightarrow> m' = jsmul m (Fin g)" for m m'
  have "R (maxAmplitude h b) (maxAmplitude H b)"
    unfolding maxAmplitude_def
  proof (rule for_loop_rel)
    show "R (Fin 0) (Fin 0)" by (simp add: R_def)
  next
    fix k t t' assume k: "0 \<le> k" "k < int (numberOfChannels b)" and r: "R t t'"
    define c where "c = nat k"
    have c: "c < numberOfChannels b" "getChannelData b k = channelData b ! c"
      using k by (simp_all add: c_def getChannelData_def)
    have a: "channelData b ! c < length h" using valid_buffer_addr [OF v c(1)] by simp
    have rd: "arr_get H (channelData b ! c) i = jsmul (arr_get h (channelData b ! c) i) (Fin g)" for i
      using H c(1) a len by (simp add: arr_get_def ta_get_map_scale)
    show "R (let channelData = getChannelData b k
             in for_loop 0 (int (length_buf b))
                  (\<lambda>i m. Math_max m (Math_abs (arr_get h channelData i))) t)
            (let channelData = getChannelData b k
             in for_loop 0 (int (length_buf b))
                  (\<lambda>i m. Math_max m (Math_abs (arr_get H channelData i))) t')"
      unfolding Let_def c(2)
    proof (rule for_loop_rel)
      show "R t t'" by (rule r)
    next
      fix i m m' assume "R m m'"
      then show "R (Math_max m (Math_abs (arr_get h (channelData b ! c) i)))
                   (Math_max m' (Math_abs (arr_get H (channelData b ! c) i)))"
        using g by (simp add: R_def rd Math_abs_scale Math_max_scale)
    qed
  qed
  then show ?thesis by (simp add: R_def)
qed

lemma normalize_gain:
  "jsgt m (Fin 0) \<and> jslt m (Fin 1) \<Longrightarrow> \<exists>p. m = Fin p \<and> 0 < p \<and> p < 1"
  by (cases m) (simp_all add: jsgt_def)

lemma applyGain_one:
  assumes v: "valid_buffer h b"
  shows "applyGain h b (Fin 1) = (h, b)"
proof -
  from applyGain_result [OF v, of "Fin 1"] obtain H where
    H: "applyGain h b (Fin 1) = (H, b)" and len: "length H = length h"
    and ch: "\<forall>k < numberOfChannels b.
               H ! (channelData b ! k) = map (\<lambda>x. jsmul x (Fin 1)) (h ! (channelData b ! k))"
    and oth: "\<forall>a. a \<notin> set (channelData b) \<longrightarrow> H ! a = h ! a"
    by (elim exE conjE)
  have "H = h"
  proof (rule heap_eqI [OF len])
    fix a assume "a < length h"
    show "H ! a = h ! a"
    proof (cases "a \<in> set (channelData b)")
      case False
      then show ?thesis using oth by simp
    next
      case True
      then obtain k where "k < numberOfChannels b" "a = channelData b ! k"
        by (auto simp: in_set_conv_nth numberOfChannels_def)
      then show ?thesis using ch by (simp add: jsmul_one)
    qed
  qed
  then show ?thesis using H by simp
qed

lemma normalize_buffer_cases:
  assumes v: "valid_buffer h b"
  shows "(\<not> (jsgt (maxAmplitude h b) (Fin 0) \<and> jslt (maxAmplitude h b) (Fin 1)) \<and>
          normalize_buffer h b = (h, b)) \<or>
         (\<exists>p H. maxAmplitude h b = Fin p \<and> 0 < p \<and> p < 1 \<and>
            normalize_buffer h b = (H, b) \<and> valid_buffer H b \<and> length H = length h \<and>
            (\<forall>k < numberOfChannels b. H ! (channelData b ! k) =
               map (\<lambda>x. jsmul x (Fin (95 / 100 / p))) (h ! (channelData b ! k))) \<and>
            (\<forall>a. a \<notin> set (channelData b) \<longrightarrow> H ! a = h ! a) \<and>
            maxAmplitude H b = Fin (95 / 100))"
proof (cases "jsgt (maxAmplitude h b) (Fin 0) \<and> jslt (maxAmplitude h b) (Fin 1)")
  case False
  then show ?thesis by (auto simp: normalize_buffer_def Let_def)
next
  case True
  from normalize_gain [OF True] obtain p where
    p: "maxAmplitude h b = Fin p" "0 < p" "p < 1" by blast
  define g where "g = 95 / 100 / p"
  have g: "0 < g" using p by (simp add: g_def)
  have n: "normalize_buffer h b = applyGain h b (Fin g)"
    using True p by (simp add: normalize_buffer_def Let_def g_def)
  from applyGain_result [OF v, of "Fin g"] obtain H where
    H: "applyGain h b (Fin g) = (H, b)" and len: "length H = length h"
    and ch: "\<forall>k < numberOfChannels b.
               H ! (channelData b ! k) = map (\<lambda>x. jsmul x (Fin g)) (h ! (channelData b ! k))"
    and oth: "\<forall>a. a \<notin> set (channelData b) \<longrightarrow> H ! a = h ! a"
    by (elim exE conjE)
  have "\<forall>k < numberOfChannels b. length (H ! (channelData b ! k)) = length_buf b"
    using ch valid_buffer_addr [OF v] by simp
  then have vH: "valid_buffer H b" by (rule valid_buffer_inplace [OF v len])
  have "maxAmplitude H b = jsmul (Fin p) (Fin g)"
    using maxAmplitude_scale [OF v g ch len] p by simp
  then have "maxAmplitude H b = Fin (95 / 100)" using p by (simp add: g_def)
  then show ?thesis using p n H vH len ch oth by (simp add: g_def)
qed

text \<open>
  Claim C6. \<open>normalize\<close> applied to its own result changes nothing more: applying it twice
  gives the store and buffer that applying it once gives. When the peak is not strictly
  between 0 and 1 the first application already leaves everything as it is; otherwise the
  first application brings the peak to exactly \<open>0.95\<close> (in exact arithmetic), for which
  the second computes the gain \<open>0.95 / 0.95 = 1\<close>.
\<close>

theorem normalize_idempotent:
  assumes "valid_buffer h b"
  shows "normalize_buffer (fst (normalize_buffer h b)) (snd (normalize_buffer h b)) =
           normalize_buffer h b \<and>
         snd (normalize_buffer h b) = b \<and>
         (jsgt (maxAmplitude h b) (Fin 0) \<and> jslt (maxAmplitude h b) (Fin 1) \<longrightarrow>
            maxAmplitude (fst (normalize_buffer h b)) b = Fin (95 / 100)) \<and>
         (\<not> (jsgt (maxAmplitude h b) (Fin 0) \<and> jslt (maxAmplitude h b) (Fin 1)) \<longrightarrow>
            normalize_buffer h b = (h, b))"
proof -
  from normalize_buffer_cases [OF assms] show ?thesis
  proof (elim disjE exE conjE)
    assume "normalize_buffer h b = (h, b)"
      and "\<not> (jsgt (maxAmplitude h b) (Fin 0) \<and> jslt (maxAmplitude h b) (Fin 1))"
    then show ?thesis by auto
  next
    fix p H
    assume p: "maxAmplitude h b = Fin p" "0 < p" "p < 1"
      and n: "normalize_buffer h b = (H, b)" and vH: "valid_buffer H b"
      and m: "maxAmplitude H b = Fin (95 / 100)"
    have "normalize_buffer H b = applyGain H b (Fin 1)"
      using m by (simp add: normalize_buffer_def Let_def jsgt_def)
    then have "normalize_buffer H b = (H, b)" using applyGain_one [OF vH] by simp
    then show ?thesis using n m p by (simp add: jsgt_def)
  qed
qed

lemmas norm_eval = normalize_buffer_def maxAmplitude_def applyGain_def numberOfChannels_def
  getChannelData_def Math_max_def jsgt_def

theorem normalize_idempotent_witness:
  "normalize_buffer [[Fin (1 / 2), Fin (- (1 / 4))]] example_buffer =
     ([[Fin (19 / 20), Fin (- (19 / 40))]], example_buffer) \<and>
   normalize_buffer [[Fin (19 / 20), Fin (- (19 / 40))]] example_buffer =
     ([[Fin (19 / 20), Fin (- (19 / 40))]], example_buffer)"
proof -
  have v: "valid_buffer [[Fin (1 / 2), Fin (- (1 / 4))]] example_buffer"
    by (simp add: valid_buffer_def example_buffer_def numberOfChannels_def)
  have 1: "normalize_buffer [[Fin (1 / 2), Fin (- (1 / 4))]] example_buffer =
     ([[Fin (19 / 20), Fin (- (19 / 40))]], example_buffer)"
    by (simp add: norm_eval example_buffer_def loop_eval)
  from normalize_idempotent [OF v] show ?thesis by (simp add: 1)
qed

section \<open>The buffer invariant\<close>

lemma trimAudio_Inr:
  assumes v: "valid_buffer h b" and r: "trimAudio h b startTime endTime = Inr (h', b')"
  shows "valid_buffer h' b' \<and> valid_buffer h' b \<and> sampleRate b' = sampleRate b \<and>
         numberOfChannels b' = numberOfChannels b \<and>
         int (length_buf b') = \<lfloor>endTime * real (sampleRate b)\<rfloor> - \<lfloor>startTime * real (sampleRate b)\<rfloor>"
proof -
  define s where "s = \<lfloor>startTime * real (sampleRate b)\<rfloor>"
  define e where "e = \<lfloor>endTime * real (sampleRate b)\<rfloor>"
  have lt: "s < e"
  proof (rule ccontr)
    assume "\<not> s < e"
    then have "trimAudio h b startTime endTime = Inl NotSupportedError"
      by (simp add: trimAudio_error s_def e_def)
    then show False using r by simp
  qed
  from trimAudio_result [OF v s_def e_def lt] r
  have b': "b' = \<lparr>sampleRate = sampleRate b, length_buf = nat (e - s),
                   channelData = [length h ..< length h + numberOfChannels b]\<rparr>"
    and len: "length h' = length h + numberOfChannels b"
    and old: "\<forall>a < length h. h' ! a = h ! a"
    and new: "\<forall>k < numberOfChannels b.
                h' ! (length h + k) = slice_of (h ! (channelData b ! k)) s (nat (e - s))"
    by auto
  have pos: "0 < sampleRate b" "0 < numberOfChannels b" "distinct (channelData b)"
    using v by (simp_all add: valid_buffer_def)
  have 1: "valid_buffer h' b'"
    using pos len new by (simp add: valid_buffer_def b' numberOfChannels_def list_all_length slice_of_def)
  have 2: "valid_buffer h' b"
    using v old len by (auto simp: valid_buffer_def list_all_iff)
  show ?thesis using 1 2 lt by (simp add: b' numberOfChannels_def s_def e_def)
qed

text \<open>
  Claim C8. Every transform keeps the invariant of a buffer (each channel array has
  \<open>length_buf\<close> samples) and leaves sample rate and channel count as they were.
  \<open>applyFade\<close>, \<open>applyGain\<close> and \<open>normalize\<close> return the very buffer they got, so the
  frame count stays too; only \<open>trimAudio\<close> returns another buffer, with the frame count
  \<open>endIndex - startIndex\<close>, which is not larger than that of the original when the range
  lies inside it.
\<close>

theorem transforms_keep_invariant:
  assumes "valid_buffer h b"
  shows "(case trimAudio h b startTime endTime of
            Inl err \<Rightarrow> True
          | Inr (h', b') \<Rightarrow>
              valid_buffer h' b' \<and> sampleRate b' = sampleRate b \<and>
              numberOfChannels b' = numberOfChannels b \<and>
              (0 \<le> \<lfloor>startTime * real (sampleRate b)\<rfloor> \<and>
               \<lfloor>endTime * real (sampleRate b)\<rfloor> \<le> int (length_buf b) \<longrightarrow>
                 length_buf b' \<le> length_buf b)) \<and>
         snd (applyFade h b fadeInSeconds fadeOutSeconds) = b \<and>
         valid_buffer (fst (applyFade h b fadeInSeconds fadeOutSeconds)) b \<and>
         snd (applyGain h b gain) = b \<and> valid_buffer (fst (applyGain h b gain)) b \<and>
         snd (normalize_buffer h b) = b \<and> valid_buffer (fst (normalize_buffer h b)) b"
proof -
  have trim: "case trimAudio h b startTime endTime of
            Inl err \<Rightarrow> True
          | Inr (h', b') \<Rightarrow>
              valid_buffer h' b' \<and> sampleRate b' = sampleRate b \<and>
              numberOfChannels b' = numberOfChannels b \<and>
              (0 \<le> \<lfloor>startTime * real (sampleRate b)\<rfloor> \<and>
               \<lfloor>endTime * real (sampleRate b)\<rfloor> \<le> int (length_buf b) \<longrightarrow>
                 length_buf b' \<le> length_buf b)"
  proof (cases "trimAudio h b startTime endTime")
    case (Inl err)
    then show ?thesis by simp
  next
    case (Inr r)
    obtain h' b' where r: "r = (h', b')" by (cases r)
    note t = trimAudio_Inr [OF assms Inr [unfolded r]]
    have "length_buf b' \<le> length_buf b"
      if "0 \<le> \<lfloor>startTime * real (sampleRate b)\<rfloor>"
        and "\<lfloor>endTime * real (sampleRate b)\<rfloor> \<le> int (length_buf b)"
      using t that by linarith
    then show ?thesis
      unfolding Inr r using t by (simp del: zero_le_floor)
  qed
  from applyFade_result [OF assms refl refl, of fadeInSeconds fadeOutSeconds]
  obtain H where H: "applyFade h b fadeInSeconds fadeOutSeconds = (H, b)"
    and len: "length H = length h"
    and ch: "\<forall>k < numberOfChannels b. length (H ! (channelData b ! k)) = length_buf b"
    by auto
  have fade: "snd (applyFade h b fadeInSeconds fadeOutSeconds) = b"
    "valid_buffer (fst (applyFade h b fadeInSeconds fadeOutSeconds)) b"
    using H valid_buffer_inplace [OF assms len ch] by simp_all
  from applyGain_result [OF assms, of gain]
  obtain G where G: "applyGain h b gain = (G, b)" and lenG: "length G = length h"
    and chG: "\<forall>k < numberOfChannels b.
                G ! (channelData b ! k) = map (\<lambda>x. jsmul x gain) (h ! (channelData b ! k))"
    by auto
  have "\<forall>k < numberOfChannels b. length (G ! (channelData b ! k)) = length_buf b"
    using chG valid_buffer_addr [OF assms] by simp
  then have gain: "snd (applyGain h b gain) = b" "valid_buffer (fst (applyGain h b gain)) b"
    using G valid_buffer_inplace [OF assms lenG] by simp_all
  have norm: "snd (normalize_buffer h b) = b" "valid_buffer (fst (normalize_buffer h b)) b"
    using normalize_buffer_cases [OF assms] assms by auto
  show ?thesis using trim fade gain norm by simp
qed

theorem transforms_keep_invariant_witness:
  "trimAudio example_heap example_buffer (1 / 8000) (2 / 8000) =
     Inr ([[Fin 1, Fin (- (1 / 2))], [Fin (- (1 / 2))]],
          \<lparr>sampleRate = 8000, length_buf = 1, channelData = [1]\<rparr>) \<and>
   valid_buffer [[Fin 1, Fin (- (1 / 2))], [Fin (- (1 / 2))]]
     \<lparr>sampleRate = 8000, length_buf = 1, channelData = [1]\<rparr> \<and>
   snd (applyFade example_heap example_buffer (1 / 8000) 0) = example_buffer \<and>
   valid_buffer (fst (applyFade example_heap example_buffer (1 / 8000) 0)) example_buffer \<and>
   snd (applyGain example_heap example_buffer (Fin 2)) = example_buffer \<and>
   valid_buffer (fst (applyGain example_heap example_buffer (Fin 2))) example_buffer \<and>
   snd (normalize_buffer example_heap example_buffer) = example_buffer \<and>
   valid_buffer (fst (normalize_buffer example_heap example_buffer)) example_buffer"
proof -
  have t: "trimAudio example_heap example_buffer (1 / 8000) (2 / 8000) =
     Inr ([[Fin 1, Fin (- (1 / 2))], [Fin (- (1 / 2))]],
          \<lparr>sampleRate = 8000, length_buf = 1, channelData = [1]\<rparr>)"
    by (simp add: trim_eval example_heap_def example_buffer_def) (simp add: loop_eval)
  from transforms_keep_invariant [OF valid_example, of "1 / 8000" "2 / 8000" "1 / 8000" 0 "Fin 2"]
  show ?thesis unfolding t by simp
qed

section \<open>The encoder\<close>

lemma sample_int16_Fin: "sample_int16 (Fin x) = word_of_int (quantize_spec x)"
  by (auto simp: sample_int16_def quantize_spec_def Math_max_def Math_min_def trunc_def Let_def
      max_def min_def)

lemma quantize_spec_range: "- 32768 \<le> quantize_spec x \<and> quantize_spec x \<le> 32767"
proof -
  define c where "c = max (- 1) (min 1 x)"
  have c: "- 1 \<le> c" "c \<le> 1" by (simp_all add: c_def)
  show ?thesis
  proof (cases "c < 0")
    case True
    have "- 32768 \<le> c * 32768" using c by simp
    then have "- 32768 \<le> \<lceil>c * 32768\<rceil>" by (simp add: le_ceiling_iff)
    moreover have "c * 32768 \<le> 0" using True by simp
    then have "\<lceil>c * 32768\<rceil> \<le> 0" by (simp add: ceiling_le_iff)
    ultimately show ?thesis using True by (simp add: quantize_spec_def c_def [symmetric])
  next
    case False
    have "0 \<le> c * 32767" using False by simp
    then have "0 \<le> \<lfloor>c * 32767\<rfloor>" by simp
    moreover have "c * 32767 \<le> 32767" using c by simp
    then have "\<lfloor>c * 32767\<rfloor> \<le> 32767" by (simp add: floor_le_iff)
    ultimately show ?thesis using False by (simp add: quantize_spec_def c_def [symmetric])
  qed
qed

lemma sint_quantize: "sint (word_of_int (quantize_spec x) :: 16 word) = quantize_spec x"
  using quantize_spec_range [of x]
  by (simp add: sint_sbintrunc' signed_take_bit_int_eq_self)

lemma floatTo16BitPCM_map:
  "floatTo16BitPCM xs = concat (map (\<lambda>x. int16_bytes (sample_int16 x)) xs)"
proof -
  have "for_loop 0 (int (length xs))
          (\<lambda>i int16Array. ta_set int16Array i (sample_int16 (ta_get xs i)))
          (replicate (length xs) 0) =
        map (\<lambda>j. sample_int16 (ta_get xs (int j))) [0..<length xs]"
    by (rule ta_loop_fill)
  also have "\<dots> = map sample_int16 xs"
    by (rule nth_equalityI) (simp_all add: ta_get_def)
  finally show ?thesis
    by (simp add: floatTo16BitPCM_def sample_int16_def Let_def comp_def)
qed

text \<open>
  Claim C3. For finite samples \<open>floatTo16BitPCM\<close> stores, low byte first, the 16-bit
  integer \<open>quantize_spec x\<close>: the sample clamped to \<open>[-1, 1]\<close>, multiplied by 32768 when
  negative and by 32767 otherwise, and truncated towards zero. The integer lies between
  -32768 and 32767, so the 16-bit store does not wrap. Nothing is rounded to nearest:
  \<open>0.5\<close> gives 16383 (bytes \<open>FF 3F\<close>), not 16384, and \<open>-0.00001\<close> gives 0.
\<close>

theorem floatTo16BitPCM_quantization:
  "floatTo16BitPCM (map Fin xs) =
     concat (map (\<lambda>x. int16_bytes (word_of_int (quantize_spec x))) xs) \<and>
   sint (word_of_int (quantize_spec x) :: 16 word) = quantize_spec x \<and>
   - 32768 \<le> quantize_spec x \<and> quantize_spec x \<le> 32767 \<and>
   floatTo16BitPCM [Fin (1 / 2), Fin (- (1 / 100000))] = [255, 63, 0, 0]"
proof -
  have "floatTo16BitPCM [Fin (1 / 2), Fin (- (1 / 100000))] = [255, 63, 0, 0]"
    by (simp add: floatTo16BitPCM_map sample_int16_Fin quantize_spec_def int16_bytes_def)
  then show ?thesis
    using quantize_spec_range [of x]
    by (simp add: floatTo16BitPCM_map sample_int16_Fin sint_quantize comp_def)
qed

theorem floatTo16BitPCM_quantization_witness:
  "floatTo16BitPCM [Fin 1, Fin (- 1), Fin 3, Fin (- (3 / 4))] = [255, 127, 0, 128, 255, 127, 0, 160] \<and>
   sint (word_of_int (quantize_spec (- (3 / 4))) :: 16 word) = - 24576"
proof -
  have q: "quantize_spec 1 = 32767" "quantize_spec (- 1) = - 32768" "quantize_spec 3 = 32767"
    "quantize_spec (- (3 / 4)) = - 24576"
    by (simp_all add: quantize_spec_def)
  from floatTo16BitPCM_quantization [of "[1, - 1, 3, - (3 / 4)]" "- (3 / 4)"]
  show ?thesis by (simp add: q int16_bytes_def)
qed

lemma ucast_drop_32_8:
  "k \<le> 24 \<Longrightarrow> (ucast (drop_bit k (word_of_nat v :: 32 word)) :: 8 word) = word_of_nat (drop_bit k v)"
  by (rule bit_word_eqI) (auto simp: bit_simps)

lemma ucast_drop_16_8:
  "k \<le> 8 \<Longrightarrow> (ucast (drop_bit k (word_of_nat v :: 16 word)) :: 8 word) = word_of_nat (drop_bit k v)"
  by (rule bit_word_eqI) (auto simp: bit_simps)

lemma ucast_32_8: "(ucast (word_of_nat v :: 32 word) :: 8 word) = word_of_nat v"
  by (rule bit_word_eqI) (auto simp: bit_simps)

lemma ucast_16_8: "(ucast (word_of_nat v :: 16 word) :: 8 word) = word_of_nat v"
  by (rule bit_word_eqI) (auto simp: bit_simps)

lemma setUint32_bytes:
  "setUint32 view off v =
     view[off := word_of_nat v, off + 1 := word_of_nat (v div 256),
          off + 2 := word_of_nat (v div 65536), off + 3 := word_of_nat (v div 16777216)]"
  using ucast_drop_32_8 [of 8 v] ucast_drop_32_8 [of 16 v] ucast_drop_32_8 [of 24 v]
  by (simp add: setUint32_def Let_def ucast_32_8 drop_bit_eq_div)

lemma setUint16_bytes:
  "setUint16 view off v = view[off := word_of_nat v, off + 1 := word_of_nat (v div 256)]"
  using ucast_drop_16_8 [of 8 v]
  by (simp add: setUint16_def Let_def ucast_16_8 drop_bit_eq_div)

lemma writeString_4:
  "writeString view off (js [a, b, c, d]) =
     view[off := word_of_nat (of_char a), off + 1 := word_of_nat (of_char b),
          off + 2 := word_of_nat (of_char c), off + 3 := word_of_nat (of_char d)]"
  by (simp add: writeString_def js_def for_loop_step for_loop_done setUint8_def charCodeAt_def)

lemma sizes: "x * 16 div 8 = x * (2::nat)"
  by simp

lemma createWavHeader_spec:
  "createWavHeader numChannels rate len = wav_header_spec numChannels rate len"
  unfolding createWavHeader_def Let_def sizes writeString_4 setUint32_bytes setUint16_bytes
  by (simp add: replicate_numeral wav_header_spec_def le_bytes_def tag_def Let_def upt_rec)

lemma interleave_index:
  fixes nc :: nat
  assumes "ch < nc" "frame < len"
  shows "frame * nc + ch < len * nc" "(frame * nc + ch) mod nc = ch" "(frame * nc + ch) div nc = frame"
proof -
  have "frame * nc + ch < frame * nc + nc" using assms(1) by simp
  also have "\<dots> = Suc frame * nc" by simp
  also have "\<dots> \<le> len * nc" using assms(2) by (intro mult_le_mono1) simp
  finally show "frame * nc + ch < len * nc" .
  show "(frame * nc + ch) mod nc = ch" using assms(1) by simp
  show "(frame * nc + ch) div nc = frame" using assms(1) by simp
qed

lemma interleave_result:
  assumes v: "valid_buffer h b"
  shows "length (interleave h b) = length_buf b * numberOfChannels b \<and>
         (\<forall>frame < length_buf b. \<forall>ch < numberOfChannels b.
            interleave h b ! (frame * numberOfChannels b + ch) = h ! (channelData b ! ch) ! frame)"
proof -
  define nc where "nc = numberOfChannels b"
  define len where "len = length_buf b"
  define N where "N = len * nc"
  define sample where "sample p = h ! (channelData b ! (p mod nc)) ! (p div nc)" for p
  define inner where "inner channel r =
      for_loop 0 (int len)
        (\<lambda>i result. ta_set result (i * int nc + channel) (arr_get h (getChannelData b channel) i)) r"
    for channel r
  define P where "P c r \<longleftrightarrow> length r = N \<and> (\<forall>p < N. int (p mod nc) < c \<longrightarrow> r ! p = sample p)"
    for c and r :: "jsnum list"
  have ncpos: "0 < nc" using v by (simp add: valid_buffer_def nc_def)
  have il: "interleave h b = for_loop 0 (int nc) inner (replicate N (Fin 0))"
    by (simp add: interleave_def Let_def inner_def [abs_def] nc_def len_def N_def
        flip: of_nat_mult)
  have "P (int nc) (for_loop 0 (int nc) inner (replicate N (Fin 0)))"
  proof (rule for_loop_invariant)
    show "0 \<le> int nc" by simp
    show "P 0 (replicate N (Fin 0))" by (simp add: P_def)
  next
    fix k r assume k: "0 \<le> k" "k < int nc" and Pk: "P k r"
    define c where "c = nat k"
    have c: "c < nc" "k = int c" using k by (simp_all add: c_def)
    have a: "channelData b ! c < length h" "length (h ! (channelData b ! c)) = len"
      using valid_buffer_addr [OF v, of c] c by (simp_all add: nc_def len_def)
    define Q where "Q i r \<longleftrightarrow> length r = N \<and>
        (\<forall>p < N. int (p mod nc) < k \<longrightarrow> r ! p = sample p) \<and>
        (\<forall>p < N. p mod nc = c \<and> int (p div nc) < i \<longrightarrow> r ! p = sample p)"
      for i and r :: "jsnum list"
    have "Q (int len) (inner k r)"
      unfolding inner_def
    proof (rule for_loop_invariant)
      show "0 \<le> int len" by simp
      show "Q 0 r" using Pk by (simp add: Q_def P_def)
    next
      fix i t assume i: "0 \<le> i" "i < int len" and Q: "Q i t"
      define f where "f = nat i"
      have f: "f < len" "i = int f" using i by (simp_all add: f_def)
      define idx where "idx = f * nc + c"
      have idx: "idx < N" "idx mod nc = c" "idx div nc = f"
        using interleave_index [OF c(1) f(1)] by (simp_all add: idx_def N_def)
      have ix: "i * int nc + k = int idx" by (simp add: idx_def f c)
      have val: "arr_get h (getChannelData b k) i = sample idx"
        using a f by (simp add: arr_get_def ta_get_def getChannelData_def c sample_def idx)
      have lt: "length t = N" using Q by (simp add: Q_def)
      have upd: "ta_set t (i * int nc + k) (arr_get h (getChannelData b k) i) = t[idx := sample idx]"
        using idx(1) lt by (simp add: ta_set_def ix val)
      show "Q (i + 1) (ta_set t (i * int nc + k) (arr_get h (getChannelData b k) i))"
        unfolding upd Q_def
      proof (intro conjI allI impI)
        show "length (t[idx := sample idx]) = N" using lt by simp
        fix p assume p: "p < N"
        show "t[idx := sample idx] ! p = sample p" if "int (p mod nc) < k"
        proof -
          have "p \<noteq> idx" using that idx(2) c by auto
          then show ?thesis using Q p that by (simp add: Q_def)
        qed
        show "t[idx := sample idx] ! p = sample p" if "p mod nc = c \<and> int (p div nc) < i + 1"
        proof (cases "p = idx")
          case True
          then show ?thesis using idx(1) lt by simp
        next
          case False
          have "p div nc \<noteq> f"
          proof
            assume "p div nc = f"
            then have "p = f * nc + c" using that div_mult_mod_eq [of p nc] by simp
            then show False using False by (simp add: idx_def)
          qed
          then have "int (p div nc) < i" using that f by simp
          then show ?thesis using Q p that False by (simp add: Q_def)
        qed
      qed
    qed
    then have Q: "length (inner k r) = N"
      "\<And>p. p < N \<Longrightarrow> int (p mod nc) < k \<Longrightarrow> inner k r ! p = sample p"
      "\<And>p. p < N \<Longrightarrow> p mod nc = c \<Longrightarrow> int (p div nc) < int len \<Longrightarrow> inner k r ! p = sample p"
      by (simp_all add: Q_def)
    show "P (k + 1) (inner k r)"
      unfolding P_def
    proof (intro conjI allI impI)
      show "length (inner k r) = N" by (rule Q(1))
      fix p assume p: "p < N" and m: "int (p mod nc) < k + 1"
      have d: "p div nc < len" using p ncpos by (simp add: N_def less_mult_imp_div_less)
      show "inner k r ! p = sample p"
      proof (cases "int (p mod nc) < k")
        case True
        then show ?thesis using Q(2) p by simp
      next
        case False
        then have "p mod nc = c" using m c by simp
        then show ?thesis using Q(3) p d by simp
      qed
    qed
  qed
  then have fin: "length (interleave h b) = N" "\<And>p. p < N \<Longrightarrow> interleave h b ! p = sample p"
    using ncpos by (simp_all add: P_def il)
  have "interleave h b ! (frame * nc + ch) = h ! (channelData b ! ch) ! frame"
    if "frame < len" "ch < nc" for frame ch
    using fin(2) [of "frame * nc + ch"] interleave_index [OF that(2) that(1)]
    by (simp add: sample_def N_def)
  then show ?thesis using fin(1) by (simp add: N_def nc_def len_def)
qed

lemma length_wav_header_spec: "length (wav_header_spec nc rate len) = 44"
  by (simp add: wav_header_spec_def le_bytes_def tag_def Let_def)

lemma concat_pairs:
  assumes "\<And>x. length (f x) = 2" and "p < length xs"
  shows "take 2 (drop (2 * p) (concat (map f xs))) = f (xs ! p)"
  using assms(2)
proof (induction xs arbitrary: p)
  case Nil
  then show ?case by simp
next
  case (Cons x xs)
  show ?case
  proof (cases p)
    case 0
    then show ?thesis using assms(1) [of x] by simp
  next
    case (Suc q)
    then have "q < length xs" using Cons.prems by simp
    from Cons.IH [OF this] show ?thesis using Suc assms(1) [of x] by simp
  qed
qed

lemma length_concat_pairs:
  assumes "\<And>x. length (f x) = 2"
  shows "length (concat (map f xs)) = 2 * length xs"
  by (induction xs) (simp_all add: assms)

lemma le_bytes_Suc: "le_bytes (Suc k) n = word_of_nat n # le_bytes k (n div 256)"
proof -
  have "[0..<Suc k] = 0 # map Suc [0..<k]"
    by (simp add: upt_conv_Cons map_Suc_upt del: upt_Suc)
  then show ?thesis
    by (simp add: le_bytes_def comp_def div_mult2_eq del: upt_Suc)
qed

lemma le_value_le_bytes: "n < 256 ^ k \<Longrightarrow> le_value (le_bytes k n) = n"
proof (induction k arbitrary: n)
  case 0
  then show ?case by (simp add: le_bytes_def le_value_def)
next
  case (Suc k)
  have "n div 256 < 256 ^ k" using Suc.prems by (simp add: less_mult_imp_div_less mult.commute)
  then have "le_value (le_bytes k (n div 256)) = n div 256" by (rule Suc.IH)
  moreover have "unat (word_of_nat n :: 8 word) = n mod 256"
    by (simp add: unsigned_of_nat take_bit_eq_mod)
  ultimately show ?case by (simp add: le_bytes_Suc le_value_def)
qed

lemma bufferToWav_bytes:
  "blob_bytes (bufferToWav h b) =
     wav_header_spec (numberOfChannels b) (sampleRate b) (length_buf b) @
     concat (map (\<lambda>x. int16_bytes (sample_int16 x)) (interleave h b))"
  by (simp add: bufferToWav_def Let_def createWavHeader_spec floatTo16BitPCM_map)

text \<open>
  Claim C4. The bytes \<open>bufferToWav\<close> produces start with the 44-byte header of the
  specification, every field low byte first: \<open>RIFF\<close>, \<open>36 + dataSize\<close>, \<open>WAVE\<close>, \<open>fmt\<close>
  and a space, 16, format 1, the channel count, the sample rate, the byte rate
  \<open>sampleRate * channelCount * 2\<close>, the block align \<open>channelCount * 2\<close>, 16 bits, \<open>data\<close>
  and \<open>dataSize = frameCount * channelCount * 2\<close>. Then follow two bytes for each sample,
  frame by frame: the pair at sample position \<open>frame * channelCount + channel\<close> is the
  16-bit value of that channel's sample at that frame, low byte first. A field of four
  (two) bytes reads back as its value when the value is below \<open>2^32\<close> (\<open>2^16\<close>).
\<close>

theorem bufferToWav_layout:
  assumes "valid_buffer h b"
  shows "take 44 (blob_bytes (bufferToWav h b)) =
           wav_header_spec (numberOfChannels b) (sampleRate b) (length_buf b) \<and>
         length (blob_bytes (bufferToWav h b)) = 44 + 2 * (length_buf b * numberOfChannels b) \<and>
         (\<forall>frame < length_buf b. \<forall>channel < numberOfChannels b.
            take 2 (drop (44 + 2 * (frame * numberOfChannels b + channel))
                      (blob_bytes (bufferToWav h b))) =
              int16_bytes (sample_int16 (h ! (channelData b ! channel) ! frame))) \<and>
         (\<forall>n < 2 ^ 32. le_value (le_bytes 4 n) = n) \<and>
         (\<forall>n < 2 ^ 16. le_value (le_bytes 2 n) = n)"
proof -
  let ?pcm = "concat (map (\<lambda>x. int16_bytes (sample_int16 x)) (interleave h b))"
  note il = interleave_result [OF assms]
  have two: "length (int16_bytes (sample_int16 x)) = 2" for x
    by (simp add: int16_bytes_def)
  have 1: "take 44 (blob_bytes (bufferToWav h b)) =
           wav_header_spec (numberOfChannels b) (sampleRate b) (length_buf b)"
    by (simp add: bufferToWav_bytes length_wav_header_spec)
  have 2: "length (blob_bytes (bufferToWav h b)) = 44 + 2 * (length_buf b * numberOfChannels b)"
    using il by (simp add: bufferToWav_bytes length_wav_header_spec length_concat_pairs [OF two])
  have 3: "take 2 (drop (44 + 2 * (frame * numberOfChannels b + channel))
                      (blob_bytes (bufferToWav h b))) =
              int16_bytes (sample_int16 (h ! (channelData b ! channel) ! frame))"
    if "frame < length_buf b" "channel < numberOfChannels b" for frame channel
  proof -
    have "frame * numberOfChannels b + channel < length (interleave h b)"
      using il interleave_index(1) [OF that(2) that(1)] by simp
    from concat_pairs [of "\<lambda>x. int16_bytes (sample_int16 x)", OF two this]
    show ?thesis using il that by (simp add: bufferToWav_bytes length_wav_header_spec)
  qed
  have 4: "\<forall>n < 2 ^ 32. le_value (le_bytes 4 n) = n"
    using le_value_le_bytes [of _ 4] by simp
  have 5: "\<forall>n < 2 ^ 16. le_value (le_bytes 2 n) = n"
    using le_value_le_bytes [of _ 2] by simp
  show ?thesis using 1 2 3 4 5 by simp
qed

theorem bufferToWav_layout_witness:
  "take 44 (blob_bytes (bufferToWav example_heap example_buffer)) =
     [82, 73, 70, 70, 40, 0, 0, 0, 87, 65, 86, 69, 102, 109, 116, 32, 16, 0, 0, 0, 1, 0, 1, 0,
      64, 31, 0, 0, 128, 62, 0, 0, 2, 0, 16, 0, 100, 97, 116, 97, 4, 0, 0, 0] \<and>
   length (blob_bytes (bufferToWav example_heap example_buffer)) = 48 \<and>
   take 2 (drop 44 (blob_bytes (bufferToWav example_heap example_buffer))) = [255, 127] \<and>
   take 2 (drop 46 (blob_bytes (bufferToWav example_heap example_buffer))) = [0, 192]"
proof -
  have e: "numberOfChannels example_buffer = 1" "length_buf example_buffer = 2"
    "channelData example_buffer = [0]" "sampleRate example_buffer = 8000"
    by (simp_all add: example_buffer_def numberOfChannels_def)
  note t = bufferToWav_layout [OF valid_example, unfolded e]
  have h: "wav_header_spec 1 8000 2 =
     [82, 73, 70, 70, 40, 0, 0, 0, 87, 65, 86, 69, 102, 109, 116, 32, 16, 0, 0, 0, 1, 0, 1, 0,
      64, 31, 0, 0, 128, 62, 0, 0, 2, 0, 16, 0, 100, 97, 116, 97, 4, 0, 0, 0]"
    by (simp add: wav_header_spec_def le_bytes_def tag_def Let_def upt_rec)
  have s: "int16_bytes (sample_int16 (example_heap ! 0 ! 0)) = [255, 127]"
    "int16_bytes (sample_int16 (example_heap ! 0 ! 1)) = [0, 192]"
    by (simp_all add: example_heap_def sample_int16_Fin quantize_spec_def int16_bytes_def)
  from t have q: "\<forall>frame < 2.
      take 2 (drop (44 + 2 * frame) (blob_bytes (bufferToWav example_heap example_buffer))) =
        int16_bytes (sample_int16 (example_heap ! 0 ! frame))"
    by simp
  have "take 2 (drop (44 + 2 * 0) (blob_bytes (bufferToWav example_heap example_buffer))) =
        int16_bytes (sample_int16 (example_heap ! 0 ! 0))"
    and "take 2 (drop (44 + 2 * 1) (blob_bytes (bufferToWav example_heap example_buffer))) =
        int16_bytes (sample_int16 (example_heap ! 0 ! 1))"
    using q [rule_format, of 0] q [rule_format, of 1] by simp_all
  then show ?thesis using t h s by simp
qed

lemma slice_of_whole: "slice_of xs 0 (length xs) = xs"
  by (rule nth_equalityI) (simp_all add: slice_of_def ta_get_def)

lemma interleave_eqI:
  assumes v: "valid_buffer h b" and v': "valid_buffer h' b'"
    and nc: "numberOfChannels b' = numberOfChannels b" and len: "length_buf b' = length_buf b"
    and same: "\<And>ch. ch < numberOfChannels b \<Longrightarrow> h' ! (channelData b' ! ch) = h ! (channelData b ! ch)"
  shows "interleave h' b' = interleave h b"
proof (rule nth_equalityI)
  note r = interleave_result [OF v] and r' = interleave_result [OF v']
  show "length (interleave h' b') = length (interleave h b)"
    using r r' nc len by simp
  fix p assume "p < length (interleave h' b')"
  then have p: "p < length_buf b * numberOfChannels b" using r' nc len by simp
  define n where "n = numberOfChannels b"
  have npos: "0 < n" using v by (simp add: valid_buffer_def n_def)
  define frame where "frame = p div n"
  define ch where "ch = p mod n"
  have ch: "ch < n" using npos by (simp add: ch_def)
  have frame: "frame < length_buf b"
    using p by (simp add: frame_def n_def less_mult_imp_div_less)
  have pp: "p = frame * n + ch" by (simp add: frame_def ch_def)
  have "interleave h' b' ! (frame * n + ch) = h' ! (channelData b' ! ch) ! frame"
    using r' frame ch by (simp add: nc len n_def)
  moreover have "interleave h b ! (frame * n + ch) = h ! (channelData b ! ch) ! frame"
    using r frame ch by (simp add: n_def)
  ultimately show "interleave h' b' ! p = interleave h b ! p"
    using same [of ch] ch by (simp add: pp n_def)
qed

text \<open>
  With exact products and an exact duration, slicing \<open>[0, frameCount / sampleRate)\<close> of a
  buffer with at least one frame is a full copy, and its encoding has the bytes of the
  encoding of the original.
\<close>

lemma slice_whole_range_exact:
  assumes "valid_buffer h b" and "0 < length_buf b"
  shows "\<exists>h' b'. trimAudio h b 0 (duration b) = Inr (h', b') \<and>
           length_buf b' = length_buf b \<and>
           drop 44 (blob_bytes (bufferToWav h' b')) = drop 44 (blob_bytes (bufferToWav h b)) \<and>
           bufferToWav h' b' = bufferToWav h b"
proof -
  have rate: "0 < sampleRate b" using assms(1) by (simp add: valid_buffer_def)
  have s: "(0::int) = \<lfloor>0 * real (sampleRate b)\<rfloor>" by simp
  have e: "int (length_buf b) = \<lfloor>duration b * real (sampleRate b)\<rfloor>"
    using rate by (simp add: duration_def)
  have lt: "(0::int) < int (length_buf b)" using assms(2) by simp
  from trimAudio_result [OF assms(1) s e lt] obtain h' where
    r: "trimAudio h b 0 (duration b) =
          Inr (h', \<lparr>sampleRate = sampleRate b, length_buf = length_buf b,
                    channelData = [length h ..< length h + numberOfChannels b]\<rparr>)"
    and new: "\<forall>k < numberOfChannels b.
                h' ! (length h + k) = slice_of (h ! (channelData b ! k)) 0 (length_buf b)"
    by auto
  define b' where "b' = \<lparr>sampleRate = sampleRate b, length_buf = length_buf b,
                    channelData = [length h ..< length h + numberOfChannels b]\<rparr>"
  have v': "valid_buffer h' b'"
    using trimAudio_Inr [OF assms(1) r] by (simp add: b'_def)
  have nc: "numberOfChannels b' = numberOfChannels b" by (simp add: b'_def numberOfChannels_def)
  have same: "h' ! (channelData b' ! ch) = h ! (channelData b ! ch)"
    if "ch < numberOfChannels b" for ch
  proof -
    have "length (h ! (channelData b ! ch)) = length_buf b"
      using valid_buffer_addr [OF assms(1) that] by simp
    then show ?thesis using new that slice_of_whole [of "h ! (channelData b ! ch)"]
      by (simp add: b'_def)
  qed
  have il: "interleave h' b' = interleave h b"
    by (rule interleave_eqI [OF assms(1) v' nc _ same]) (simp_all add: b'_def)
  have "bufferToWav h' b' = bufferToWav h b"
    by (simp add: bufferToWav_def Let_def il nc) (simp add: b'_def)
  then show ?thesis using r by (simp add: b'_def)
qed

section \<open>Rounding to doubles\<close>

lemma bitlen_bracket: "0 < n \<Longrightarrow> 2 ^ (bitlen n - 1) \<le> n \<and> n < 2 ^ bitlen n"
proof (induction n rule: bitlen.induct)
  case (1 n)
  have b: "bitlen n = Suc (bitlen (n div 2))" using "1.prems" by (simp add: bitlen.simps)
  show ?case
  proof (cases "n div 2 = 0")
    case True
    then have "n = 1" using "1.prems" by (simp add: div_eq_0_iff)
    then show ?thesis by (simp add: bitlen.simps)
  next
    case False
    then have ih: "2 ^ (bitlen (n div 2) - 1) \<le> n div 2" "n div 2 < 2 ^ bitlen (n div 2)"
      using "1.IH" "1.prems" by simp_all
    obtain j where j: "bitlen (n div 2) = Suc j"
      using False by (cases "bitlen (n div 2)") (simp_all add: bitlen.simps)
    have "(2::nat) ^ (bitlen n - 1) = 2 * 2 ^ j" by (simp add: b j)
    also have "\<dots> \<le> 2 * (n div 2)" using ih(1) by (simp add: j)
    also have "\<dots> \<le> n" by simp
    finally have lo: "2 ^ (bitlen n - 1) \<le> n" .
    have "Suc (n div 2) \<le> 2 ^ bitlen (n div 2)" using ih(2) by simp
    then have "2 * Suc (n div 2) \<le> 2 * 2 ^ bitlen (n div 2)" by (rule mult_le_mono2)
    moreover have "n < 2 * Suc (n div 2)" by simp
    ultimately have "n < 2 * 2 ^ bitlen (n div 2)" by (rule less_le_trans [rotated])
    then have "n < 2 ^ bitlen n" by (simp add: b)
    then show ?thesis using lo by simp
  qed
qed


lemma real_pow2_bounds:
  fixes n j :: nat
  assumes "2 ^ j \<le> n" "n < 2 * 2 ^ j"
  shows "(2::real) ^ j \<le> real n" "real n + 1 \<le> 2 * 2 ^ j"
proof -
  have "real ((2::nat) ^ j) \<le> real n" using assms(1) by (rule of_nat_mono)
  then show "(2::real) ^ j \<le> real n" by simp
  have "Suc n \<le> 2 * 2 ^ j" using assms(2) by simp
  then have "real (Suc n) \<le> real (2 * 2 ^ j)" by (rule of_nat_mono)
  then show "real n + 1 \<le> 2 * 2 ^ j" by simp
qed

lemma round_even_near: "\<bar>real_of_int (round_even y) - y\<bar> \<le> 1 / 2"
proof -
  have "real_of_int \<lfloor>y\<rfloor> \<le> y" "y < real_of_int \<lfloor>y\<rfloor> + 1" by linarith+
  then show ?thesis unfolding round_even_def Let_def by (simp split: if_splits)
qed


lemma binexp_bracket:
  assumes "0 < x"
  shows "pow2 (binexp x) \<le> x \<and> x < 2 * pow2 (binexp x)"
proof (cases "1 \<le> x")
  case True
  define n where "n = nat \<lfloor>x\<rfloor>"
  have fx: "1 \<le> \<lfloor>x\<rfloor>" using True by simp
  have rn: "real n = real_of_int \<lfloor>x\<rfloor>" using fx by (simp add: n_def)
  have n0: "0 < n" using fx by (simp add: n_def)
  have n1: "real n \<le> x" unfolding rn by linarith
  have n2: "x < real n + 1" unfolding rn by linarith
  obtain j where j: "bitlen n = Suc j"
    using n0 by (cases "bitlen n") (simp_all add: bitlen.simps)
  from bitlen_bracket [OF n0] have "2 ^ j \<le> n" "n < 2 * 2 ^ j" by (simp_all add: j)
  note r = real_pow2_bounds [OF this]
  have be: "binexp x = int j" using True by (simp add: binexp_def n_def [symmetric] j)
  have p: "pow2 (binexp x) = 2 ^ j" by (simp add: be pow2_def)
  show ?thesis unfolding p using r n1 n2 by linarith
next
  case False
  define y where "y = 1 / x"
  have y: "1 < y" "x = 1 / y" using False assms by (simp_all add: y_def)
  define m where "m = nat (\<lceil>y\<rceil> - 1)"
  have c: "2 \<le> \<lceil>y\<rceil>" using y(1) by (simp add: le_ceiling_iff)
  have rm: "real m = real_of_int \<lceil>y\<rceil> - 1" using c by (simp add: m_def)
  have m0: "0 < m" using c by (simp add: m_def)
  have m1: "real m < y" unfolding rm by linarith
  have m2: "y \<le> real m + 1" unfolding rm by linarith
  obtain j where j: "bitlen m = Suc j"
    using m0 by (cases "bitlen m") (simp_all add: bitlen.simps)
  from bitlen_bracket [OF m0] have "2 ^ j \<le> m" "m < 2 * 2 ^ j" by (simp_all add: j)
  note r = real_pow2_bounds [OF this]
  have lo: "(2::real) ^ j < y" using r(1) m1 by linarith
  have hi: "y \<le> 2 * 2 ^ j" using r(2) m2 by linarith
  have be: "binexp x = - int (Suc j)"
    using False by (simp add: binexp_def y_def [symmetric] m_def [symmetric] j)
  have "nat (int j + 1) = Suc j" by simp
  then have p: "pow2 (binexp x) = 1 / (2 * 2 ^ j)" by (simp add: be pow2_def)
  have pos: "(0::real) < 2 ^ j" by simp
  have a: "1 / (2 * 2 ^ j) \<le> 1 / y"
    using hi y(1) by (intro divide_left_mono) simp_all
  have b: "1 / y < 1 / 2 ^ j"
  proof -
    have "0 < y" using y(1) by simp
    then have "0 < y * 2 ^ j" using pos by (rule mult_pos_pos)
    with lo show ?thesis by (intro divide_strict_left_mono) simp_all
  qed
  have x1: "1 / (2 * 2 ^ j) \<le> x" using a by (simp add: y(2))
  have x2: "x < 2 * (1 / (2 * 2 ^ j))" using b by (simp add: y(2))
  show ?thesis unfolding p using x1 x2 by simp
qed


lemma pow2_pos: "0 < pow2 k"
  by (simp add: pow2_def)

lemma round_double_near:
  assumes "x \<noteq> 0"
  shows "\<bar>round_double x - x\<bar> \<le> pow2 (max (binexp \<bar>x\<bar>) (- 1022) - 52) / 2"
proof -
  define q where "q = pow2 (max (binexp \<bar>x\<bar>) (- 1022) - 52)"
  have q: "0 < q" by (simp add: q_def pow2_pos)
  have "round_double x - x = (real_of_int (round_even (x / q)) - x / q) * q"
    using assms q by (simp add: round_double_def Let_def q_def [symmetric] left_diff_distrib)
  then have "\<bar>round_double x - x\<bar> = \<bar>real_of_int (round_even (x / q)) - x / q\<bar> * q"
    using q by (simp add: abs_mult)
  also have "\<dots> \<le> 1 / 2 * q"
    using round_even_near [of "x / q"] q by (intro mult_right_mono) simp_all
  finally show ?thesis by (simp add: q_def)
qed

lemma bitlen_0: "bitlen 0 = 0"
  by (simp add: bitlen.simps)

lemma bitlen_1: "bitlen (Suc 0) = 1" "bitlen 1 = 1"
  by (simp_all add: bitlen.simps)

lemma bitlen_numeral: "bitlen (numeral k) = Suc (bitlen (numeral k div 2))"
  by (simp add: bitlen.simps)

lemmas bitlen_eval = bitlen_numeral bitlen_0 bitlen_1

lemma round_double_duration_15:
  "round_double (15 / 11025) = 6274402746159711 / 4611686018427387904"
proof -
  have "binexp \<bar>15 / 11025\<bar> = - 10" by (simp add: binexp_def bitlen_eval)
  then show ?thesis by (simp add: round_double_def pow2_def round_even_def Let_def)
qed

lemma round_double_product_15:
  "round_double (6274402746159711 / 4611686018427387904 * 11025) =
     8444249301319679 / 562949953421312"
proof -
  have "binexp \<bar>6274402746159711 / 4611686018427387904 * 11025\<bar> = 3"
    by (simp add: binexp_def bitlen_eval)
  then show ?thesis by (simp add: round_double_def pow2_def round_even_def Let_def)
qed

lemma floor_product_15: "\<lfloor>8444249301319679 / 562949953421312 :: real\<rfloor> = 14"
  by simp

lemma trimAudio_double_indices:
  assumes "\<lfloor>round_double (startTime * real (sampleRate b))\<rfloor> = \<lfloor>s * real (sampleRate b)\<rfloor>"
    and "\<lfloor>round_double (endTime * real (sampleRate b))\<rfloor> = \<lfloor>e * real (sampleRate b)\<rfloor>"
  shows "trimAudio_double h b startTime endTime = trimAudio h b s e"
  by (simp add: trimAudio_double_def trimAudio_def assms)

lemma slice_of_take: "n \<le> length xs \<Longrightarrow> slice_of xs 0 n = take n xs"
  by (rule nth_equalityI) (simp_all add: slice_of_def ta_get_def)

lemma payload_length:
  assumes "valid_buffer h b"
  shows "length (drop 44 (blob_bytes (bufferToWav h b))) = 2 * (length_buf b * numberOfChannels b)"
proof -
  have two: "length (int16_bytes (sample_int16 x)) = 2" for x
    by (simp add: int16_bytes_def)
  show ?thesis
    using interleave_result [OF assms]
    by (simp add: bufferToWav_bytes length_wav_header_spec length_concat_pairs [OF two])
qed

text \<open>
  Claim C9. Slicing the whole range \<open>[0, frameCount / sampleRate)\<close> and encoding should
  give the sample bytes of encoding the buffer itself. For 15 frames at 11025 Hz it does
  not: \<open>buffer.duration\<close> is the double \<open>6274402746159711 / 2^62\<close>, its product with 11025
  is rounded to \<open>8444249301319679 / 2^49\<close>, just below 15, and \<open>Math.floor\<close> makes it 14.
  The slice has the first 14 frames only, and its encoding has 28 sample bytes where the
  encoding of the buffer has 30.
\<close>

theorem slice_whole_range_loses_last_frame:
  "valid_buffer heap15 buffer15 \<and>
   duration_double buffer15 = 6274402746159711 / 4611686018427387904 \<and>
   round_double (duration_double buffer15 * real (sampleRate buffer15)) =
     8444249301319679 / 562949953421312 \<and>
   trimAudio_double heap15 buffer15 0 (duration_double buffer15) =
     Inr ([frames15, take 14 frames15],
          \<lparr>sampleRate = 11025, length_buf = 14, channelData = [1]\<rparr>) \<and>
   length (drop 44 (blob_bytes (bufferToWav [frames15, take 14 frames15]
             \<lparr>sampleRate = 11025, length_buf = 14, channelData = [1]\<rparr>))) = 28 \<and>
   length (drop 44 (blob_bytes (bufferToWav heap15 buffer15))) = 30"
proof -
  have b: "sampleRate buffer15 = 11025" "length_buf buffer15 = 15" "channelData buffer15 = [0]"
    "numberOfChannels buffer15 = 1"
    by (simp_all add: buffer15_def numberOfChannels_def)
  have len15: "length frames15 = 15" by (simp add: frames15_def)
  have v: "valid_buffer heap15 buffer15"
    by (simp add: valid_buffer_def b heap15_def len15)
  have d: "duration_double buffer15 = 6274402746159711 / 4611686018427387904"
    using round_double_duration_15 by (simp add: duration_double_def b)
  have p: "round_double (duration_double buffer15 * real (sampleRate buffer15)) =
     8444249301319679 / 562949953421312"
    unfolding d b using round_double_product_15 by simp
  have z: "round_double (0 * real (sampleRate buffer15)) = 0" by (simp add: round_double_def)
  have s: "\<lfloor>round_double (0 * real (sampleRate buffer15))\<rfloor> = \<lfloor>0 * real (sampleRate buffer15)\<rfloor>"
    unfolding z by simp
  have e: "\<lfloor>round_double (duration_double buffer15 * real (sampleRate buffer15))\<rfloor> =
           \<lfloor>14 / 11025 * real (sampleRate buffer15)\<rfloor>"
    unfolding p by (simp add: b)
  have t: "trimAudio_double heap15 buffer15 0 (duration_double buffer15) =
           trimAudio heap15 buffer15 0 (14 / 11025)"
    by (rule trimAudio_double_indices [OF s e])
  have s0: "(0::int) = \<lfloor>0 * real (sampleRate buffer15)\<rfloor>" by simp
  have e14: "(14::int) = \<lfloor>14 / 11025 * real (sampleRate buffer15)\<rfloor>" by (simp add: b)
  from trimAudio_result [OF v s0 e14] obtain h' where
    r: "trimAudio heap15 buffer15 0 (14 / 11025) =
          Inr (h', \<lparr>sampleRate = sampleRate buffer15, length_buf = nat (14 - 0),
                    channelData = [length heap15 ..< length heap15 + numberOfChannels buffer15]\<rparr>)"
    and l: "length h' = length heap15 + numberOfChannels buffer15"
    and o: "\<forall>a < length heap15. h' ! a = heap15 ! a"
    and c: "\<forall>k < numberOfChannels buffer15.
              h' ! (length heap15 + k) =
                slice_of (heap15 ! (channelData buffer15 ! k)) 0 (nat (14 - 0))"
    by auto
  have h0: "h' ! 0 = frames15" using o by (simp add: heap15_def)
  have h1: "h' ! 1 = take 14 frames15"
    using c by (simp add: b heap15_def slice_of_take len15)
  have l2: "length h' = 2" using l by (simp add: b heap15_def)
  have h': "h' = [frames15, take 14 frames15]"
  proof (rule nth_equalityI)
    show "length h' = length [frames15, take 14 frames15]" using l2 by simp
    fix i assume "i < length h'"
    then have "i = 0 \<or> i = 1" using l2 by auto
    then show "h' ! i = [frames15, take 14 frames15] ! i" using h0 h1 by auto
  qed
  have r': "trimAudio_double heap15 buffer15 0 (duration_double buffer15) =
     Inr ([frames15, take 14 frames15],
          \<lparr>sampleRate = 11025, length_buf = 14, channelData = [1]\<rparr>)"
    unfolding t r h' by (simp add: b heap15_def)
  have v14: "valid_buffer [frames15, take 14 frames15]
               \<lparr>sampleRate = 11025, length_buf = 14, channelData = [1]\<rparr>"
    by (simp add: valid_buffer_def numberOfChannels_def len15)
  have p14: "length (drop 44 (blob_bytes (bufferToWav [frames15, take 14 frames15]
             \<lparr>sampleRate = 11025, length_buf = 14, channelData = [1]\<rparr>))) = 28"
    using payload_length [OF v14] by (simp add: numberOfChannels_def)
  have p15: "length (drop 44 (blob_bytes (bufferToWav heap15 buffer15))) = 30"
    using payload_length [OF v] by (simp add: b)
  show ?thesis using v d p r' p14 p15 by simp
qed

section \<open>The timecode parser\<close>

lemma jsadd_NaN: "jsadd x NaN = NaN" "jsadd NaN x = NaN"
  by (cases x; simp)+

lemma jsmul_NaN: "jsmul x NaN = NaN" "jsmul NaN x = NaN"
  by (cases x; simp)+

lemma isNaN_iff: "isNaN x \<longleftrightarrow> x = NaN"
  by (cases x) simp_all

lemmas parse_eval = timeToSeconds_def js_def parseFloat_def isWhiteSpace_def isDigit_def
  digits_value_def exponent_value_def Let_def inf_signed_def

lemma js_split_not_Nil: "js_split s \<noteq> []"
  by (induction s) (auto split: list.splits)

lemma js_join_split: "js_join (js_split s) = s"
proof (induction s)
  case Nil
  then show ?case by simp
next
  case (Cons c cs)
  obtain p ps where ps: "js_split cs = p # ps"
    using js_split_not_Nil [of cs] by (cases "js_split cs") auto
  show ?case
  proof (cases "c = 58")
    case True
    then show ?thesis using Cons ps by simp
  next
    case False
    then show ?thesis using Cons ps by (cases ps) simp_all
  qed
qed

lemma js_split_no_colon: "p \<in> set (js_split s) \<Longrightarrow> 58 \<notin> set p"
proof (induction s arbitrary: p)
  case Nil
  then show ?case by simp
next
  case (Cons c cs)
  obtain q qs where qs: "js_split cs = q # qs"
    using js_split_not_Nil [of cs] by (cases "js_split cs") auto
  show ?case
  proof (cases "c = 58")
    case True
    then show ?thesis using Cons by auto
  next
    case False
    then show ?thesis using Cons.prems Cons.IH [of q] Cons.IH [of p] qs by auto
  qed
qed

lemma timeToSeconds_not_NaN: "timeToSeconds s \<noteq> NaN"
  by (simp add: timeToSeconds_def Let_def isNaN_iff)

lemma timeToSeconds_failed_part:
  assumes "p \<in> set (js_split s)" and "parseFloat p = NaN"
  shows "timeToSeconds s = Fin 0"
proof -
  consider a b c where "js_split s = [a, b, c]" | a b where "js_split s = [a, b]"
    | a where "js_split s = [a]" | "length (js_split s) \<noteq> 3 \<and> length (js_split s) \<noteq> 2 \<and> length (js_split s) \<noteq> 1"
  proof (cases "js_split s")
    case Nil
    then show ?thesis using that(4) by simp
  next
    case (Cons a as)
    note 1 = this
    show ?thesis
    proof (cases as)
      case Nil
      then show ?thesis using that(3) 1 by simp
    next
      case (Cons b bs)
      note 2 = this
      show ?thesis
      proof (cases bs)
        case Nil
        then show ?thesis using that(2) 1 2 by simp
      next
        case (Cons c cs)
        then show ?thesis using that(1) that(4) 1 2 by (cases cs) simp_all
      qed
    qed
  qed
  then show ?thesis
  proof cases
    case 1
    then show ?thesis using assms
      by (auto simp: timeToSeconds_def Let_def jsadd_NaN jsmul_NaN)
  next
    case 2
    then show ?thesis using assms
      by (auto simp: timeToSeconds_def Let_def jsadd_NaN jsmul_NaN)
  next
    case 3
    then show ?thesis using assms
      by (auto simp: timeToSeconds_def Let_def jsadd_NaN jsmul_NaN)
  next
    case 4
    then show ?thesis by (simp add: timeToSeconds_def Let_def)
  qed
qed

text \<open>
  Claim C7. \<open>timeToSeconds\<close> splits its text at the colons (the parts hold no colon and
  give the text back when joined with colons) and parses each part with \<open>parseFloat\<close>. When the parts are numbers it returns \<open>h * 3600 + m * 60 + s\<close> for three
  parts, \<open>m * 60 + s\<close> for two and the number itself for one; when a part does not parse it
  returns 0. It returns a number for every text (never \<open>NaN\<close>, and no error is raised).
  The four examples of the specification evaluate to 3723.5, 123.5, 5.25 and 0.
\<close>

theorem timeToSeconds_weighted_sum:
  "js_join (js_split s) = s \<and> (\<forall>p \<in> set (js_split s). 58 \<notin> set p) \<and>
   timeToSeconds s \<noteq> NaN \<and>
   ((\<exists>p \<in> set (js_split s). parseFloat p = NaN) \<longrightarrow> timeToSeconds s = Fin 0) \<and>
   (js_split s = [a, b, c] \<and> parseFloat a = Fin x \<and> parseFloat b = Fin y \<and> parseFloat c = Fin z \<longrightarrow>
      timeToSeconds s = Fin (x * 3600 + y * 60 + z)) \<and>
   (js_split s = [a, b] \<and> parseFloat a = Fin x \<and> parseFloat b = Fin y \<longrightarrow>
      timeToSeconds s = Fin (x * 60 + y)) \<and>
   (js_split s = [a] \<and> parseFloat a = Fin x \<longrightarrow> timeToSeconds s = Fin x) \<and>
   timeToSeconds (js ''01:02:03.500'') = Fin 3723.5 \<and>
   timeToSeconds (js ''02:03.500'') = Fin 123.5 \<and>
   timeToSeconds (js ''5.25'') = Fin 5.25 \<and>
   timeToSeconds (js ''not-a-time'') = Fin 0"
proof -
  have 1: "(\<exists>p \<in> set (js_split s). parseFloat p = NaN) \<longrightarrow> timeToSeconds s = Fin 0"
    using timeToSeconds_failed_part by blast
  have 2: "js_split s = [a, b, c] \<and> parseFloat a = Fin x \<and> parseFloat b = Fin y \<and>
           parseFloat c = Fin z \<longrightarrow> timeToSeconds s = Fin (x * 3600 + y * 60 + z)"
    by (simp add: timeToSeconds_def Let_def)
  have 3: "js_split s = [a, b] \<and> parseFloat a = Fin x \<and> parseFloat b = Fin y \<longrightarrow>
           timeToSeconds s = Fin (x * 60 + y)"
    by (simp add: timeToSeconds_def Let_def)
  have 4: "js_split s = [a] \<and> parseFloat a = Fin x \<longrightarrow> timeToSeconds s = Fin x"
    by (simp add: timeToSeconds_def Let_def)
  have 5: "timeToSeconds (js ''01:02:03.500'') = Fin 3723.5"
    by (simp add: parse_eval)
  have 6: "timeToSeconds (js ''02:03.500'') = Fin 123.5"
    by (simp add: parse_eval)
  have 7: "timeToSeconds (js ''5.25'') = Fin 5.25"
    by (simp add: parse_eval)
  have 8: "timeToSeconds (js ''not-a-time'') = Fin 0"
    by (simp add: parse_eval)
  show ?thesis
    using js_join_split js_split_no_colon timeToSeconds_not_NaN 1 2 3 4 5 6 7 8 by blast
qed

theorem timeToSeconds_weighted_sum_witness:
  "js_split (js ''1:30'') = [js ''1'', js ''30''] \<and> parseFloat (js ''1'') = Fin 1 \<and>
   parseFloat (js ''30'') = Fin 30 \<and> timeToSeconds (js ''1:30'') = Fin 90 \<and>
   js_split (js ''1:x2:3'') = [js ''1'', js ''x2'', js ''3''] \<and> parseFloat (js ''x2'') = NaN \<and>
   timeToSeconds (js ''1:x2:3'') = Fin 0"
proof -
  have s: "js_split (js ''1:30'') = [js ''1'', js ''30'']"
    "js_split (js ''1:x2:3'') = [js ''1'', js ''x2'', js ''3'']"
    by (simp_all add: js_def)
  have p: "parseFloat (js ''1'') = Fin 1" "parseFloat (js ''30'') = Fin 30"
    "parseFloat (js ''x2'') = NaN"
    by (simp_all add: parse_eval)
  have "timeToSeconds (js ''1:30'') = Fin (1 * 60 + 30)"
    using timeToSeconds_weighted_sum [of "js ''1:30''" "js ''1''" "js ''30''" _ 1 30] s p
    by blast
  moreover have "timeToSeconds (js ''1:x2:3'') = Fin 0"
    using timeToSeconds_weighted_sum [of "js ''1:x2:3''"] s p by simp
  ultimately show ?thesis using s p by simp
qed

end
